theory Spec2Isabelle
  imports Main "HOL-Library.List_Lexorder"
begin

section \<open>Strings\<close>

text \<open>
  A JavaScript string is a sequence of UTF-16 code units; a code unit is modelled by its
  number.  Relational comparison of two strings (\<open><=\<close>) is the lexicographic order on the
  code units, which is the order of the theory List_Lexorder.
\<close>

type_synonym jschar = nat
type_synonym jsstring = "jschar list"

definition js :: "string \<Rightarrow> jsstring" where
  "js s = map of_char s"

definition nl :: jsstring where
  "nl = [10]"

definition sp :: "nat \<Rightarrow> jsstring" where
  "sp n = replicate n 32"

text \<open>\<^verbatim>\<open>s.split(',')\<close>: the pieces between the separators; the empty string gives one empty piece.\<close>

fun split_on :: "jschar \<Rightarrow> jsstring \<Rightarrow> jsstring list" where
  "split_on sep [] = [[]]"
| "split_on sep (c # cs) =
     (if c = sep then [] # split_on sep cs
      else (case split_on sep cs of [] \<Rightarrow> [[c]] | t # ts \<Rightarrow> (c # t) # ts))"

text \<open>\<^verbatim>\<open>xs.join(sep)\<close>; a hole of \<^verbatim>\<open>new Array(n)\<close> joins as the empty string.\<close>

fun join :: "jsstring \<Rightarrow> jsstring list \<Rightarrow> jsstring" where
  "join sep [] = []"
| "join sep [x] = x"
| "join sep (x # y # ys) = x @ sep @ join sep (y # ys)"

text \<open>\<^verbatim>\<open>s.replace(pat, rep)\<close> with a string pattern: the first occurrence only.\<close>

fun replace_str :: "jsstring \<Rightarrow> jsstring \<Rightarrow> jsstring \<Rightarrow> jsstring" where
  "replace_str pat rep [] = (if pat = [] then rep else [])"
| "replace_str pat rep (c # cs) =
     (if take (length pat) (c # cs) = pat then rep @ drop (length pat) (c # cs)
      else c # replace_str pat rep cs)"

section \<open>Regular expressions\<close>

text \<open>
  The patterns of the source are written with combinators that follow the backtracking
  matchers of ECMAScript: a matcher takes the subject, a state (the end index reached and
  the captures so far) and a continuation, and returns the first success in priority order.
\<close>

record mstate =
  pos :: nat
  caps :: "nat \<Rightarrow> jsstring option"

type_synonym matcher =
  "jsstring \<Rightarrow> mstate \<Rightarrow> (mstate \<Rightarrow> mstate option) \<Rightarrow> mstate option"

text \<open>One character of a class.\<close>

definition cls :: "(jschar \<Rightarrow> bool) \<Rightarrow> matcher" where
  "cls p s x c =
     (if pos x < length s \<and> p (s ! pos x) then c (x\<lparr>pos := pos x + 1\<rparr>) else None)"

text \<open>Sequence, and alternation \<open>|\<close> (the left alternative first).\<close>

definition sq :: "matcher \<Rightarrow> matcher \<Rightarrow> matcher" where
  "sq m1 m2 s x c = m1 s x (\<lambda>y. m2 s y c)"

definition alt :: "matcher \<Rightarrow> matcher \<Rightarrow> matcher" where
  "alt m1 m2 s x c = (case m1 s x c of Some r \<Rightarrow> Some r | None \<Rightarrow> m2 s x c)"

text \<open>
  The quantifiers \<open>?\<close>, \<open>*\<close> (greedy) and \<open>*?\<close> (lazy).  An iteration that consumes
  nothing is rejected, as in ECMAScript; the bound \<open>pos y \<le> length s\<close> holds for every
  matcher built here and makes the recursion terminate for any argument.
\<close>

definition opt :: "matcher \<Rightarrow> matcher" where
  "opt m s x c =
     (case m s x (\<lambda>y. if pos y = pos x then None else c y) of
        Some r \<Rightarrow> Some r
      | None \<Rightarrow> c x)"

function star :: "matcher \<Rightarrow> matcher" where
  "star m s x c =
     (case m s x (\<lambda>y. if pos x < pos y \<and> pos y \<le> length s then star m s y c else None) of
        Some r \<Rightarrow> Some r
      | None \<Rightarrow> c x)"
  by pat_completeness auto
termination
  by (relation "measure (\<lambda>(m, s, x, c). length s - pos x)") auto

function lstar :: "matcher \<Rightarrow> matcher" where
  "lstar m s x c =
     (case c x of
        Some r \<Rightarrow> Some r
      | None \<Rightarrow>
          m s x (\<lambda>y. if pos x < pos y \<and> pos y \<le> length s then lstar m s y c else None))"
  by pat_completeness auto
termination
  by (relation "measure (\<lambda>(m, s, x, c). length s - pos x)") auto

definition plus :: "matcher \<Rightarrow> matcher" where
  "plus m = sq m (star m)"

text \<open>A capturing group, and a backreference (an unset group matches the empty string).\<close>

definition grp :: "nat \<Rightarrow> matcher \<Rightarrow> matcher" where
  "grp n m s x c =
     m s x (\<lambda>y. c (y\<lparr>caps := (caps y)(n \<mapsto> take (pos y - pos x) (drop (pos x) s))\<rparr>))"

definition backref :: "nat \<Rightarrow> matcher" where
  "backref n s x c =
     (case caps x n of
        None \<Rightarrow> c x
      | Some t \<Rightarrow>
          if take (length t) (drop (pos x) s) = t then c (x\<lparr>pos := pos x + length t\<rparr>)
          else None)"

text \<open>
  The assertions \<open>^\<close> and \<open>$\<close> without the \<open>m\<close> flag (no pattern of the source that uses
  them has it), and the negative lookahead \<open>(?!...)\<close>.
\<close>

definition bol :: matcher where
  "bol s x c = (if pos x = 0 then c x else None)"

definition eol :: matcher where
  "eol s x c = (if pos x = length s then c x else None)"

definition nla :: "matcher \<Rightarrow> matcher" where
  "nla m s x c = (case m s x Some of Some r \<Rightarrow> None | None \<Rightarrow> c x)"

text \<open>
  Character classes: \<open>\s\<close> (white space and line terminators), \<open>\d\<close>, \<open>\w\<close>, and the
  line terminators that \<open>.\<close> excludes.
\<close>

definition is_space :: "jschar \<Rightarrow> bool" where
  "is_space c \<longleftrightarrow>
     c \<in> {9, 10, 11, 12, 13, 32, 160, 0x1680, 0x2028, 0x2029, 0x202F, 0x205F, 0x3000, 0xFEFF}
     \<or> (0x2000 \<le> c \<and> c \<le> 0x200A)"

definition is_digit :: "jschar \<Rightarrow> bool" where
  "is_digit c \<longleftrightarrow> 48 \<le> c \<and> c \<le> 57"

definition is_word :: "jschar \<Rightarrow> bool" where
  "is_word c \<longleftrightarrow> (97 \<le> c \<and> c \<le> 122) \<or> (65 \<le> c \<and> c \<le> 90) \<or> is_digit c \<or> c = 95"

definition is_line_terminator :: "jschar \<Rightarrow> bool" where
  "is_line_terminator c \<longleftrightarrow> c \<in> {10, 13, 0x2028, 0x2029}"

definition dot :: matcher where
  "dot = cls (\<lambda>c. \<not> is_line_terminator c)"

definition lit :: "char \<Rightarrow> matcher" where
  "lit ch = cls (\<lambda>c. c = of_char ch)"

definition not_chr :: "char \<Rightarrow> matcher" where
  "not_chr ch = cls (\<lambda>c. c \<noteq> of_char ch)"

text \<open>
  A letter under the \<open>i\<close> flag (without \<open>u\<close>): the letter in either case.  Canonicalisation
  maps no code unit from 128 on to an ASCII one, so nothing else matches an ASCII letter;
  classes, digits and punctuation are not affected by the flag.
\<close>

definition lit_ci :: "char \<Rightarrow> char \<Rightarrow> matcher" where
  "lit_ci lo up = cls (\<lambda>c. c = of_char lo \<or> c = of_char up)"

text \<open>
  \<open>RegExpBuiltinExec\<close>: try the start indices from \<open>lastIndex\<close> on, up to the length of
  the subject; the result is the start index and the final state.
\<close>

definition start_at :: "nat \<Rightarrow> mstate" where
  "start_at i = \<lparr>pos = i, caps = (\<lambda>n. None)\<rparr>"

function exec_from :: "matcher \<Rightarrow> jsstring \<Rightarrow> nat \<Rightarrow> (nat \<times> mstate) option" where
  "exec_from m s i =
     (if length s < i then None
      else case m s (start_at i) Some of
             Some y \<Rightarrow> Some (i, y)
           | None \<Rightarrow> exec_from m s (i + 1))"
  by pat_completeness auto
termination
  by (relation "measure (\<lambda>(m, s, i). Suc (length s) - i)") auto

lemma exec_from_bounds: "exec_from m s i = Some (st, y) \<Longrightarrow> i \<le> st \<and> st \<le> length s"
proof (induction m s i rule: exec_from.induct)
  case (1 m s i)
  show ?case
  proof (cases "length s < i")
    case True
    with "1.prems" show ?thesis by simp
  next
    case le: False
    show ?thesis
    proof (cases "m s (start_at i) Some")
      case None
      with le "1.prems" have "exec_from m s (i + 1) = Some (st, y)" by simp
      with "1.IH" le None show ?thesis by fastforce
    next
      case (Some r)
      with le "1.prems" show ?thesis by simp
    qed
  qed
qed

text \<open>
  The loop of a global (\<open>g\<close>) pattern in \<open>match\<close> and \<open>replace\<close>: every match from
  \<open>lastIndex\<close> on, the next search starting at the end of the match, one further after an
  empty match.
\<close>

function match_all_from :: "matcher \<Rightarrow> jsstring \<Rightarrow> nat \<Rightarrow> (nat \<times> mstate) list" where
  "match_all_from m s i =
     (case exec_from m s i of
        None \<Rightarrow> []
      | Some (st, y) \<Rightarrow> (st, y) # match_all_from m s (if pos y \<le> st then st + 1 else pos y))"
  by pat_completeness auto
termination
proof (relation "measure (\<lambda>(m, s, i). Suc (length s) - i)")
  show "wf (measure (\<lambda>(m, s, i). Suc (length s) - i))" by simp
next
  fix m :: matcher and s i p st y
  assume "exec_from m s i = Some p" and "(st, y) = p"
  then have "i \<le> st \<and> st \<le> length s" using exec_from_bounds by metis
  then show "((m, s, if pos y \<le> st then st + 1 else pos y), (m, s, i))
      \<in> measure (\<lambda>(m, s, i). Suc (length s) - i)"
    by auto
qed

text \<open>The matched substring \<open>m[0]\<close>.\<close>

definition matched :: "jsstring \<Rightarrow> nat \<times> mstate \<Rightarrow> jsstring" where
  "matched s r = take (pos (snd r) - fst r) (drop (fst r) s)"

text \<open>
  The result of \<open>replace\<close>: the subject with each match replaced, the text between the
  matches copied (\<open>np\<close> is \<open>nextSourcePosition\<close>).
\<close>

fun splice :: "jsstring \<Rightarrow> nat \<Rightarrow> ((nat \<times> mstate) \<times> jsstring) list \<Rightarrow> jsstring" where
  "splice s np [] = drop np s"
| "splice s np ((r, rep) # rest) =
     (if np \<le> fst r then take (fst r - np) (drop np s) @ rep @ splice s (pos (snd r)) rest
      else splice s np rest)"

definition replace_all :: "matcher \<Rightarrow> jsstring \<Rightarrow> jsstring \<Rightarrow> jsstring" where
  "replace_all m rep s = splice s 0 (map (\<lambda>r. (r, rep)) (match_all_from m s 0))"

definition replace_first :: "matcher \<Rightarrow> jsstring \<Rightarrow> jsstring \<Rightarrow> jsstring" where
  "replace_first m rep s =
     (case exec_from m s 0 of None \<Rightarrow> s | Some r \<Rightarrow> splice s 0 [(r, rep)])"

definition regex_test :: "matcher \<Rightarrow> jsstring \<Rightarrow> bool" where
  "regex_test m s = (exec_from m s 0 \<noteq> None)"

text \<open>\<open>s.match(re)\<close> with a global pattern: the matched substrings, or \<open>null\<close>.\<close>

definition match_global :: "matcher \<Rightarrow> jsstring \<Rightarrow> jsstring list option" where
  "match_global m s =
     (case match_all_from m s 0 of [] \<Rightarrow> None | r # rs \<Rightarrow> Some (map (matched s) (r # rs)))"

section \<open>Anchors and the anchor tree\<close>

text \<open>
  \<^verbatim>\<open>interface Anchor { title: string; href: string; level: number; }\<close>
  The interface declares \<open>level\<close> a number; the value that \<open>getHtmlStr\<close> stores is the
  one-digit string captured by the heading pattern.  The tree builder only compares levels
  with \<open><=\<close>, so the level type is left open here: any linear order.
\<close>

record 'l anchor =
  title :: jsstring
  href :: jsstring
  level :: 'l

text \<open>A top-level node is \<^verbatim>\<open>{ ...cur, children: [] }\<close>; a child is the plain \<^verbatim>\<open>{ ...cur }\<close>.\<close>

record 'l anchor_node = "'l anchor" +
  children :: "'l anchor list"

definition top_node :: "'l anchor \<Rightarrow> 'l anchor_node" where
  "top_node cur = \<lparr>title = title cur, href = href cur, level = level cur, children = []\<rparr>"

definition push_child :: "'l anchor_node \<Rightarrow> 'l anchor \<Rightarrow> 'l anchor_node" where
  "push_child n cur = n\<lparr>children := children n @ [cur]\<rparr>"

text \<open>
  The reducer of \<open>anchorsTree\<close>:
  \<^verbatim>\<open>if (!res.length || cur.level <= res[0].level) res.push({ ...cur, children: [] });
  else res[res.length - 1].children.push({ ...cur });\<close>
\<close>

definition tree_step :: "('l::linorder) anchor_node list \<Rightarrow> 'l anchor \<Rightarrow> 'l anchor_node list" where
  "tree_step res cur =
     (if length res = 0 \<or> level cur \<le> level (res ! 0)
      then res @ [top_node cur]
      else res[length res - 1 := push_child (res ! (length res - 1)) cur])"

definition anchorsTree :: "('l::linorder) anchor list \<Rightarrow> 'l anchor_node list" where
  "anchorsTree list = foldl tree_step [] list"

section \<open>External collaborators\<close>

text \<open>
  What the module imports and this repository does not define: the markdown parser
  (\<open>parse\<close> of marked, called with the renderer whose \<open>code\<close> hook is \<open>renderer_code\<close>
  below), the pattern returned by \<open>emojiRegexCreater()\<close>, the built-in \<open>toLowerCase\<close>, and
  the grammar table and the highlighter of Prism.  They are parameters of the model.
\<close>

record 'g externals =
  marked_parse :: "(jsstring \<Rightarrow> jsstring \<Rightarrow> jsstring) \<Rightarrow> jsstring \<Rightarrow> jsstring"
  emojiRegex :: matcher
  toLowerCase :: "jsstring \<Rightarrow> jsstring"
  prism_languages :: "jsstring \<Rightarrow> 'g option"
  prism_highlight :: "jsstring \<Rightarrow> 'g \<Rightarrow> jsstring \<Rightarrow> jsstring"

section \<open>The code block renderer\<close>

text \<open>\<^verbatim>\<open>/^\s*$/\<close>\<close>

definition blank_rx :: matcher where
  "blank_rx = sq bol (sq (star (cls is_space)) eol)"

text \<open>
  \<^verbatim>\<open>const langs = infostring.split(',');
  const langsPrefix = langs.reduce((res, cur, i, arr) =>
      /^\s*$/.test(cur) && arr.length === 1
        ? res.concat('language-none') : res.concat(`language-${cur}`), []).join(' ');\<close>
\<close>

definition langsPrefix :: "jsstring \<Rightarrow> jsstring" where
  "langsPrefix infostring =
     (let langs = split_on 44 infostring in
      join (js '' '')
        (foldl (\<lambda>res cur.
                  if regex_test blank_rx cur \<and> length langs = 1
                  then res @ [js ''language-none'']
                  else res @ [js ''language-'' @ cur]) [] langs))"

text \<open>\<^verbatim>\<open>/\n(?!$)/g\<close>\<close>

definition newline_rx :: matcher where
  "newline_rx = sq (cls (\<lambda>c. c = 10)) (nla eol)"

text \<open>
  \<^verbatim>\<open>const match = code.match(reg);
  const linesNum = match ? match.length + 1 : 1;
  const lines = new Array(linesNum + 1).join('<span></span>');\<close>
\<close>

definition linesNum :: "jsstring \<Rightarrow> nat" where
  "linesNum code =
     (case match_global newline_rx code of Some ms \<Rightarrow> length ms + 1 | None \<Rightarrow> 1)"

definition lineNumbersWrapper :: "jsstring \<Rightarrow> jsstring" where
  \<open>lineNumbersWrapper code =
     js ''<span aria-hidden="true" class="line-numbers-rows">''
     @ join (js ''<span></span>'') (replicate (linesNum code + 1) [])
     @ js ''</span>''\<close>

text \<open>
  \<^verbatim>\<open>langs.filter(Boolean).length && Prism.languages[langs[0]]
    ? Prism.highlight(code, Prism.languages[langs[0]], infostring) : code\<close>
\<close>

definition highlighted :: "'g externals \<Rightarrow> jsstring \<Rightarrow> jsstring \<Rightarrow> jsstring" where
  "highlighted E code infostring =
     (let langs = split_on 44 infostring in
      if length (filter (\<lambda>l. l \<noteq> []) langs) \<noteq> 0
      then (case prism_languages E (langs ! 0) of
              Some g \<Rightarrow> prism_highlight E code g infostring
            | None \<Rightarrow> code)
      else code)"

definition renderer_code :: "'g externals \<Rightarrow> jsstring \<Rightarrow> jsstring \<Rightarrow> jsstring" where
  \<open>renderer_code E code infostring =
     nl @ sp 6 @ js ''<div class="code_wrap">''
     @ nl @ sp 8 @ js ''<button data-type="copy">copy</button>''
     @ nl @ sp 8 @ js ''<pre class="line-numbers '' @ langsPrefix infostring
       @ js ''"><code class="'' @ langsPrefix infostring @ js ''">''
     @ nl @ sp 10 @ highlighted E code infostring @ lineNumbersWrapper code
     @ nl @ sp 8 @ js ''</code></pre>''
     @ nl @ sp 6 @ js ''</div>''\<close>

section \<open>The heading post-processor\<close>

datatype error = TypeError

text \<open>\<^verbatim>\<open>/<h(\d{1})\s{1}(?:id="([^"]*)")?[^>]*>(.*?)<\/h\1>/gim\<close>\<close>

definition heading_rx :: matcher where
  \<open>heading_rx =
     sq (lit CHR ''<'') (sq (lit_ci CHR ''h'' CHR ''H'') (sq (grp 1 (cls is_digit)) (sq (cls is_space)
     (sq (opt (sq (lit_ci CHR ''i'' CHR ''I'') (sq (lit_ci CHR ''d'' CHR ''D'') (sq (lit CHR ''='')
            (sq (lit CHR 0x22) (sq (grp 2 (star (not_chr CHR 0x22))) (lit CHR 0x22)))))))
     (sq (star (not_chr CHR ''>'')) (sq (lit CHR ''>'') (sq (grp 3 (lstar dot))
     (sq (lit CHR ''<'') (sq (lit CHR ''/'') (sq (lit_ci CHR ''h'' CHR ''H'') (sq (backref 1)
     (lit CHR ''>''))))))))))))\<close>

text \<open>\<^verbatim>\<open>/^<(\w+)([^>]*)>/\<close>\<close>

definition starts_with_tag_rx :: matcher where
  "starts_with_tag_rx =
     sq bol (sq (lit CHR ''<'') (sq (grp 1 (plus (cls is_word)))
     (sq (grp 2 (star (not_chr CHR ''>''))) (lit CHR ''>''))))"

text \<open>\<^verbatim>\<open>/<(\w+)[^>]*>(.*?)<\/\1>/\<close>\<close>

definition element_rx :: matcher where
  "element_rx =
     sq (lit CHR ''<'') (sq (grp 1 (plus (cls is_word))) (sq (star (not_chr CHR ''>''))
     (sq (lit CHR ''>'') (sq (grp 2 (lstar dot))
     (sq (lit CHR ''<'') (sq (lit CHR ''/'') (sq (backref 1) (lit CHR ''>''))))))))"

text \<open>\<^verbatim>\<open>/<(\w+)([^>]*)>(.*?)<\/\1>/g\<close>\<close>

definition element3_rx :: matcher where
  "element3_rx =
     sq (lit CHR ''<'') (sq (grp 1 (plus (cls is_word))) (sq (grp 2 (star (not_chr CHR ''>'')))
     (sq (lit CHR ''>'') (sq (grp 3 (lstar dot))
     (sq (lit CHR ''<'') (sq (lit CHR ''/'') (sq (backref 1) (lit CHR ''>''))))))))"

text \<open>\<^verbatim>\<open>/^\s*|\s*$/g\<close>, \<^verbatim>\<open>/^[\s-]*|[\s-]*$/g\<close> and \<^verbatim>\<open>/\s+/g\<close>\<close>

definition trim_space_rx :: matcher where
  "trim_space_rx = alt (sq bol (star (cls is_space))) (sq (star (cls is_space)) eol)"

definition space_or_hyphen :: "jschar \<Rightarrow> bool" where
  "space_or_hyphen c \<longleftrightarrow> is_space c \<or> c = 45"

definition trim_id_rx :: matcher where
  "trim_id_rx = alt (sq bol (star (cls space_or_hyphen))) (sq (star (cls space_or_hyphen)) eol)"

definition spaces_rx :: matcher where
  "spaces_rx = plus (cls is_space)"

text \<open>\<^verbatim>\<open>/<h\d{1}\s{1}([^>]*)>/\<close> (no flag) and \<^verbatim>\<open>/(id="([^"]+)[^"]")?/\<close>\<close>

definition open_tag_rx :: matcher where
  "open_tag_rx =
     sq (lit CHR ''<'') (sq (lit CHR ''h'') (sq (cls is_digit) (sq (cls is_space)
     (sq (grp 1 (star (not_chr CHR ''>''))) (lit CHR ''>'')))))"

definition id_attr_rx :: matcher where
  \<open>id_attr_rx =
     opt (grp 1 (sq (lit CHR ''i'') (sq (lit CHR ''d'') (sq (lit CHR ''='') (sq (lit CHR 0x22)
       (sq (grp 2 (plus (not_chr CHR 0x22))) (sq (not_chr CHR 0x22) (lit CHR 0x22))))))))\<close>

text \<open>
  \<^verbatim>\<open>const textNoTag = /^<(\w+)([^>]*)>/.test(text)
    ? text.match(/<(\w+)[^>]*>(.*?)<\/\1>/)[2].replace(/^\s*|\s*$/g, '')
    : text.replace(/<(\w+)([^>]*)>(.*?)<\/\1>/g, '');\<close>
  Indexing the \<open>null\<close> of a failed \<open>match\<close> throws a \<open>TypeError\<close>.
\<close>

definition textNoTag :: "jsstring \<Rightarrow> error + jsstring" where
  "textNoTag text =
     (if regex_test starts_with_tag_rx text
      then (case exec_from element_rx text 0 of
              None \<Rightarrow> Inl TypeError
            | Some r \<Rightarrow>
                (case caps (snd r) 2 of
                   None \<Rightarrow> Inl TypeError
                 | Some inner \<Rightarrow> Inr (replace_all trim_space_rx [] inner)))
      else Inr (replace_all element3_rx [] text))"

text \<open>
  \<^verbatim>\<open>const idNoEmoji = id
    ? id.replace(emojiRegex, '').replace(/^[\s-]*|[\s-]*$/g, '')
    : text.toLowerCase().replace(/\s+/g, '-');\<close>
  The captured \<open>id\<close> is \<open>undefined\<close> (\<open>None\<close>) when the group took no part in the match;
  \<open>undefined\<close> and the empty string are both falsy.
\<close>

definition idNoEmoji :: "'g externals \<Rightarrow> jsstring option \<Rightarrow> jsstring \<Rightarrow> jsstring" where
  "idNoEmoji E hid text =
     (case hid of
        None \<Rightarrow> replace_all spaces_rx (js ''-'') (toLowerCase E text)
      | Some i \<Rightarrow>
          if i \<noteq> [] then replace_all trim_id_rx [] (replace_all (emojiRegex E) [] i)
          else replace_all spaces_rx (js ''-'') (toLowerCase E text))"

text \<open>
  \<^verbatim>\<open>const attrsNoId = raw.match(/<h\d{1}\s{1}([^>]*)>/)[1].replace(/(id="([^"]+)[^"]")?/, '');\<close>
\<close>

definition attrsNoId :: "jsstring \<Rightarrow> error + jsstring" where
  "attrsNoId raw =
     (case exec_from open_tag_rx raw 0 of
        None \<Rightarrow> Inl TypeError
      | Some r \<Rightarrow>
          (case caps (snd r) 1 of
             None \<Rightarrow> Inl TypeError
           | Some attrs \<Rightarrow> Inr (replace_first id_attr_rx [] attrs)))"

text \<open>The template literal that the callback returns.\<close>

definition heading_html :: "jsstring \<Rightarrow> jsstring \<Rightarrow> jsstring \<Rightarrow> jsstring \<Rightarrow> jsstring" where
  \<open>heading_html lvl attrs idn text =
     js ''<h'' @ lvl @ js '' '' @ attrs @ js '' id="'' @ idn @ js ''" class="ant-typography">''
     @ nl @ sp 20 @ js ''<a id="user-content-'' @ idn @ js ''" name="'' @ idn @ js ''" class="anchor">''
     @ nl @ sp 22 @ js ''<span data-type="anchor" data-hash="#'' @ idn
       @ js ''" class="iconfont icon-pin"></span>''
     @ nl @ sp 20 @ js ''</a>''
     @ nl @ sp 20 @ js ''<span>'' @ text @ js ''</span>''
     @ nl @ sp 18 @ js ''</h'' @ lvl @ js ''>''\<close>

text \<open>
  The callback \<^verbatim>\<open>(raw, level, id, text) => ...\<close>: the anchor it pushes and the string it
  returns, or the exception it throws (before anything is pushed).
\<close>

definition heading_callback ::
  "'g externals \<Rightarrow> jsstring \<Rightarrow> jsstring \<Rightarrow> jsstring option \<Rightarrow> jsstring
     \<Rightarrow> error + (jsstring anchor \<times> jsstring)" where
  "heading_callback E raw lvl hid text =
     (case textNoTag text of
        Inl e \<Rightarrow> Inl e
      | Inr tnt \<Rightarrow>
          (let idn = idNoEmoji E hid text in
           case attrsNoId raw of
             Inl e \<Rightarrow> Inl e
           | Inr attrs \<Rightarrow>
               Inr (\<lparr>title = tnt, href = js ''#'' @ idn, level = lvl\<rparr>,
                    heading_html lvl attrs idn text)))"

text \<open>
  The module state: the flat anchor list, and (a ghost field) the texts the external parser
  has been called on, in order.
\<close>

record pstate =
  anchorsFlat :: "jsstring anchor list"
  parse_log :: "jsstring list"

text \<open>
  A capture passed to the callback as a string; groups 1 and 3 of the heading pattern take
  part in every match.
\<close>

definition cap_str :: "mstate \<Rightarrow> nat \<Rightarrow> jsstring" where
  "cap_str y n = (case caps y n of Some t \<Rightarrow> t | None \<Rightarrow> js ''undefined'')"

definition callback_of :: "'g externals \<Rightarrow> jsstring \<Rightarrow> nat \<times> mstate \<Rightarrow> error + (jsstring anchor \<times> jsstring)" where
  "callback_of E str r =
     heading_callback E (matched str r) (cap_str (snd r) 1) (caps (snd r) 2) (cap_str (snd r) 3)"

text \<open>
  \<open>replace\<close> calls the callback on the matches from left to right; an exception ends the
  run and leaves the anchors pushed so far.
\<close>

fun run_callbacks ::
  "'g externals \<Rightarrow> jsstring \<Rightarrow> (nat \<times> mstate) list \<Rightarrow> pstate
     \<Rightarrow> (error + ((nat \<times> mstate) \<times> jsstring) list) \<times> pstate" where
  "run_callbacks E str [] st = (Inr [], st)"
| "run_callbacks E str (r # rs) st =
     (case callback_of E str r of
        Inl e \<Rightarrow> (Inl e, st)
      | Inr (a, rep) \<Rightarrow>
          (case run_callbacks E str rs (st\<lparr>anchorsFlat := anchorsFlat st @ [a]\<rparr>) of
             (Inl e, st') \<Rightarrow> (Inl e, st')
           | (Inr reps, st') \<Rightarrow> (Inr ((r, rep) # reps), st')))"

definition postProcess :: "'g externals \<Rightarrow> jsstring \<Rightarrow> pstate \<Rightarrow> (error + jsstring) \<times> pstate" where
  "postProcess E str st =
     (case run_callbacks E str (match_all_from heading_rx str 0) st of
        (Inl e, st') \<Rightarrow> (Inl e, st')
      | (Inr reps, st') \<Rightarrow> (Inr (splice str 0 reps), st'))"

section \<open>getHtmlStr and useMarked\<close>

text \<open>\<^verbatim>\<open>/^[\u200B\u200C\u200D\u200E\u200F\uFEFF]/\<close>\<close>

definition bom_rx :: matcher where
  "bom_rx = sq bol (cls (\<lambda>c. c \<in> {0x200B, 0x200C, 0x200D, 0x200E, 0x200F, 0xFEFF}))"

text \<open>
  \<^verbatim>\<open>const str = parse(value.replace(/^[...]/, ''), { renderer: ... });
  return value ? str.replace(/<h.../gim, (raw, level, id, text) => { ... }) : '';\<close>
  The parser is called first, whatever \<open>value\<close> is.
\<close>

definition getHtmlStr :: "'g externals \<Rightarrow> jsstring \<Rightarrow> pstate \<Rightarrow> (error + jsstring) \<times> pstate" where
  "getHtmlStr E v st =
     (let src = replace_first bom_rx [] v;
          str = marked_parse E (renderer_code E) src;
          st1 = st\<lparr>parse_log := parse_log st @ [src]\<rparr>
      in if v \<noteq> [] then postProcess E str st1 else (Inr [], st1))"

text \<open>\<^verbatim>\<open>/^([^\.]*)|([^\.]+)$/g\<close> and \<^verbatim>\<open>/^md$/i\<close>\<close>

definition title_rx :: matcher where
  "title_rx =
     alt (sq bol (grp 1 (star (not_chr CHR ''.'')))) (sq (grp 2 (plus (not_chr CHR ''.''))) eol)"

definition md_rx :: matcher where
  "md_rx = sq bol (sq (lit_ci CHR ''m'' CHR ''M'') (sq (lit_ci CHR ''d'' CHR ''D'') eol))"

text \<open>
  \<^verbatim>\<open>const match = title.match(/^([^\.]*)|([^\.]+)$/g);
  const lang = (match[1] ?? '').replace('vue', 'html');\<close>
\<close>

definition lang_of :: "jsstring \<Rightarrow> error + jsstring" where
  "lang_of ttl =
     (case match_global title_rx ttl of
        None \<Rightarrow> Inl TypeError
      | Some ms \<Rightarrow>
          Inr (replace_str (js ''vue'') (js ''html'') (if 1 < length ms then ms ! 1 else [])))"

text \<open>
  \<^verbatim>\<open>const isMarkdown = /^md$/i.test(lang);
  const mdStr = isMarkdown ? value : `\`\`\`${lang}\n${value}\n\`\`\``;\<close>
\<close>

definition isMarkdown_of :: "jsstring \<Rightarrow> bool" where
  "isMarkdown_of lang = regex_test md_rx lang"

definition mdStr_of :: "jsstring \<Rightarrow> jsstring \<Rightarrow> jsstring" where
  "mdStr_of lang v =
     (if isMarkdown_of lang then v
      else replicate 3 96 @ lang @ nl @ v @ nl @ replicate 3 96)"

record marked_result =
  content :: jsstring
  anchors :: "jsstring anchor_node list"
  isMarkdown :: bool

definition useMarked ::
  "'g externals \<Rightarrow> jsstring \<Rightarrow> jsstring \<Rightarrow> pstate \<Rightarrow> (error + marked_result) \<times> pstate" where
  "useMarked E v ttl st =
     (let st1 = st\<lparr>anchorsFlat := []\<rparr> in
      case lang_of ttl of
        Inl e \<Rightarrow> (Inl e, st1)
      | Inr lang \<Rightarrow>
          (case getHtmlStr E (mdStr_of lang v) st1 of
             (Inl e, st2) \<Rightarrow> (Inl e, st2)
           | (Inr html, st2) \<Rightarrow>
               (Inr \<lparr>content = html, anchors = anchorsTree (anchorsFlat st2),
                     isMarkdown = isMarkdown_of lang\<rparr>, st2)))"

section \<open>The specification's wording\<close>

text \<open>
  The forest as the specification words it, with the nodes written out: the anchor is a
  new top-level node with an empty children sequence when the forest is empty or its level
  is at most the level of the first top-level node; otherwise it is appended to the
  children of the most recently added top-level node, which is otherwise kept as it is.
\<close>

fun spec_place :: "('l::linorder) anchor_node list \<Rightarrow> 'l anchor \<Rightarrow> 'l anchor_node list" where
  "spec_place [] a = [\<lparr>title = title a, href = href a, level = level a, children = []\<rparr>]"
| "spec_place (n # ns) a =
     (if level a \<le> level n
      then (n # ns) @ [\<lparr>title = title a, href = href a, level = level a, children = []\<rparr>]
      else butlast (n # ns)
           @ [\<lparr>title = title (last (n # ns)), href = href (last (n # ns)),
               level = level (last (n # ns)), children = children (last (n # ns)) @ [a]\<rparr>])"

fun spec_forest_acc :: "('l::linorder) anchor_node list \<Rightarrow> 'l anchor list \<Rightarrow> 'l anchor_node list" where
  "spec_forest_acc forest [] = forest"
| "spec_forest_acc forest (a # as) = spec_forest_acc (spec_place forest a) as"

definition spec_forest :: "('l::linorder) anchor list \<Rightarrow> 'l anchor_node list" where
  "spec_forest list = spec_forest_acc [] list"

text \<open>
  The same forest read off the list at once: the first anchor, and every later anchor whose
  level is at most the level of the first one, is a top-level node, and its children are
  the anchors that follow it up to the next such anchor (\<open>spec_grouped\<close>).  Flattening a
  forest lists each node followed by its children.
\<close>

definition node_anchor :: "'l anchor_node \<Rightarrow> 'l anchor" where
  "node_anchor n = \<lparr>title = title n, href = href n, level = level n\<rparr>"

definition flatten :: "'l anchor_node list \<Rightarrow> 'l anchor list" where
  "flatten forest = concat (map (\<lambda>n. node_anchor n # children n) forest)"

definition child_node :: "'l anchor \<Rightarrow> 'l anchor list \<Rightarrow> 'l anchor_node" where
  "child_node a cs = \<lparr>title = title a, href = href a, level = level a, children = cs\<rparr>"

fun spec_split :: "('l::linorder) \<Rightarrow> 'l anchor list \<Rightarrow> 'l anchor list \<times> 'l anchor_node list" where
  "spec_split l0 [] = ([], [])"
| "spec_split l0 (a # as) =
     (case spec_split l0 as of
        (cs, ns) \<Rightarrow> if level a \<le> l0 then ([], child_node a cs # ns) else (a # cs, ns))"

fun spec_grouped :: "('l::linorder) anchor list \<Rightarrow> 'l anchor_node list" where
  "spec_grouped [] = []"
| "spec_grouped (a # as) = (case spec_split (level a) as of (cs, ns) \<Rightarrow> child_node a cs # ns)"

text \<open>
  The newline characters of a code string that are not at its very end.
\<close>

definition inner_newlines :: "jsstring \<Rightarrow> nat" where
  "inner_newlines code =
     length (filter (\<lambda>i. code ! i = 10 \<and> Suc i \<noteq> length code) [0..<length code])"

definition spec_class_list :: "jsstring \<Rightarrow> jsstring" where
  "spec_class_list infostring =
     (let toks = split_on 44 infostring in
      if length toks = 1 \<and> list_all is_space (toks ! 0) then js ''language-none''
      else join (js '' '') (map (\<lambda>t. js ''language-'' @ t) (filter (\<lambda>t. t \<noteq> []) toks)))"

definition code_class_list :: "jsstring \<Rightarrow> jsstring" where
  "code_class_list infostring =
     (let toks = split_on 44 infostring in
      if length toks = 1 \<and> list_all is_space (toks ! 0) then js ''language-none''
      else join (js '' '') (map (\<lambda>t. js ''language-'' @ t) toks))"

definition not_dot :: "jschar \<Rightarrow> bool" where
  "not_dot c \<longleftrightarrow> c \<noteq> 46"

definition before_first_dot :: "jsstring \<Rightarrow> jsstring" where
  "before_first_dot ttl = takeWhile not_dot ttl"

definition after_last_dot :: "jsstring \<Rightarrow> jsstring" where
  "after_last_dot ttl = rev (takeWhile not_dot (rev ttl))"

definition file_ext :: "jsstring \<Rightarrow> jsstring" where
  "file_ext ttl = (if 46 \<in> set ttl then after_last_dot ttl else [])"

definition ext_lang :: "jsstring \<Rightarrow> jsstring" where
  "ext_lang ttl = replace_str (js ''vue'') (js ''html'') (file_ext ttl)"

definition spec_lang :: "jsstring \<Rightarrow> jsstring" where
  "spec_lang ttl = replace_str (js ''vue'') (js ''html'') (before_first_dot ttl)"

text \<open>Lower-casing of the ASCII letters, to compare up to case.\<close>

definition ascii_lower :: "jsstring \<Rightarrow> jsstring" where
  "ascii_lower s = map (\<lambda>c. if 65 \<le> c \<and> c \<le> 90 then c + 32 else c) s"

text \<open>
  Trimming at both ends, the pattern \<^verbatim>\<open>/^[...]*|[...]*$/g\<close> for a class of characters, and
  the collapse of every run of white space to one hyphen.
\<close>

definition trim_both :: "(jschar \<Rightarrow> bool) \<Rightarrow> jsstring \<Rightarrow> jsstring" where
  "trim_both p s = rev (dropWhile p (rev (dropWhile p s)))"

definition trim_rx :: "(jschar \<Rightarrow> bool) \<Rightarrow> matcher" where
  "trim_rx p = alt (sq bol (star (cls p))) (sq (star (cls p)) eol)"

fun collapse :: "bool \<Rightarrow> jsstring \<Rightarrow> jsstring" where
  "collapse in_run [] = []"
| "collapse in_run (c # cs) =
     (if is_space c then (if in_run then collapse True cs else 45 # collapse True cs)
      else c # collapse False cs)"

definition collapse_ws :: "jsstring \<Rightarrow> jsstring" where
  "collapse_ws s = collapse False s"

text \<open>
  The final id as the specification words it: from the authored id when there is one, from
  the clean text otherwise.
\<close>

definition spec_id :: "'g externals \<Rightarrow> jsstring option \<Rightarrow> jsstring \<Rightarrow> jsstring" where
  "spec_id E hid text =
     (case hid of
        Some i \<Rightarrow> trim_both space_or_hyphen (replace_all (emojiRegex E) [] i)
      | None \<Rightarrow> (case textNoTag text of Inr clean \<Rightarrow> collapse_ws (toLowerCase E clean)
                                       | Inl e \<Rightarrow> []))"

section \<open>The clean text of a heading, as specified\<close>

text \<open>
  The clean text of a heading as the specification words it.  The inner HTML is a single
  wrapping tag when it is one opening tag, a content without \<open><\<close>, and the closing tag of the
  same name, and nothing else; stripping the tag markup removes every \<open><\<dots>>\<close> and keeps
  what is between.
\<close>

fun strip_markup :: "bool \<Rightarrow> jsstring \<Rightarrow> jsstring" where
  "strip_markup in_tag [] = []"
| "strip_markup in_tag (c # cs) =
     (if in_tag then (if c = 62 then strip_markup False cs else strip_markup True cs)
      else (if c = 60 then strip_markup True cs else c # strip_markup False cs))"

definition wrapped_content :: "jsstring \<Rightarrow> jsstring option" where
  "wrapped_content text =
     (case text of
        [] \<Rightarrow> None
      | c # r \<Rightarrow>
          (let name = takeWhile is_word r;
               body = drop 1 (dropWhile (\<lambda>c. c \<noteq> 62) r);
               close = 60 # 47 # name @ [62];
               inner = take (length body - length close) body
           in if c = 60 \<and> name \<noteq> [] \<and> 62 \<in> set r \<and> length close \<le> length body
                 \<and> drop (length body - length close) body = close \<and> 60 \<notin> set inner
              then Some inner else None))"

definition spec_title :: "jsstring \<Rightarrow> jsstring" where
  "spec_title text =
     (case wrapped_content text of
        Some inner \<Rightarrow> trim_both is_space inner
      | None \<Rightarrow> strip_markup False text)"

section \<open>The clean text of a heading, without patterns\<close>

text \<open>
  The clean text as the code computes it, without patterns.  The closing tag of a name is
  \<open></name>\<close>.  The content before a closing tag is the shortest stretch without line
  terminator after which the closing tag stands (\<open>content_upto\<close>).  After the name, an
  element goes on with its attribute text up to the next \<open>>\<close>, that \<open>>\<close>, the content, and
  the closing tag (\<open>element_named\<close>).  The name of an element that starts at a \<open><\<close> is the
  longest non-empty stretch of the word characters following the \<open><\<close> for which all this is
  found (\<open>try_names\<close>, \<open>element_start\<close>); the element is given by its name, its attribute
  text and its content.
\<close>

definition close_tag :: "jsstring \<Rightarrow> jsstring" where
  "close_tag name = 60 # 47 # name @ [62]"

fun content_upto :: "jsstring \<Rightarrow> jsstring \<Rightarrow> jsstring option" where
  "content_upto cl [] = (if cl = [] then Some [] else None)"
| "content_upto cl (c # cs) =
     (if take (length cl) (c # cs) = cl then Some []
      else if is_line_terminator c then None
      else map_option ((#) c) (content_upto cl cs))"

definition element_named :: "jsstring \<Rightarrow> jsstring \<Rightarrow> (jsstring \<times> jsstring) option" where
  "element_named name r =
     (case dropWhile (\<lambda>c. c \<noteq> 62) r of
        [] \<Rightarrow> None
      | gt # body \<Rightarrow>
          map_option (\<lambda>inner. (takeWhile (\<lambda>c. c \<noteq> 62) r, inner))
            (content_upto (close_tag name) body))"

fun try_names :: "nat \<Rightarrow> jsstring \<Rightarrow> (jsstring \<times> jsstring \<times> jsstring) option" where
  "try_names 0 v = None"
| "try_names (Suc k) v =
     (case element_named (take (Suc k) v) (drop (Suc k) v) of
        Some (a, inner) \<Rightarrow> Some (take (Suc k) v, a, inner)
      | None \<Rightarrow> try_names k v)"

definition element_start :: "jsstring \<Rightarrow> (jsstring \<times> jsstring \<times> jsstring) option" where
  "element_start u =
     (case u of
        [] \<Rightarrow> None
      | c # v \<Rightarrow> if c = 60 then try_names (length (takeWhile is_word v)) v else None)"

fun element_length :: "jsstring \<times> jsstring \<times> jsstring \<Rightarrow> nat" where
  "element_length (name, a, inner) = 2 * length name + length a + length inner + 5"

text \<open>
  The first element of a text is the one that starts at the leftmost \<open><\<close> where an element
  starts.  Removing the elements goes from left to right: where an element starts it is
  skipped whole, content included, and the scan goes on after its closing tag; any other
  character is kept.  A text starts with a tag when it begins with \<open><\<close>, a word character,
  and has a \<open>>\<close> further on.
\<close>

fun first_element :: "jsstring \<Rightarrow> (jsstring \<times> jsstring \<times> jsstring) option" where
  "first_element [] = None"
| "first_element (c # cs) =
     (case element_start (c # cs) of Some e \<Rightarrow> Some e | None \<Rightarrow> first_element cs)"

fun remove_elements :: "jsstring \<Rightarrow> jsstring" where
  "remove_elements [] = []"
| "remove_elements (c # cs) =
     (case element_start (c # cs) of
        None \<Rightarrow> c # remove_elements cs
      | Some e \<Rightarrow> remove_elements (drop (element_length e - 1) cs))"

definition starts_with_tag :: "jsstring \<Rightarrow> bool" where
  "starts_with_tag text =
     (case text of [] \<Rightarrow> False | c # v \<Rightarrow> c = 60 \<and> takeWhile is_word v \<noteq> [] \<and> 62 \<in> set v)"

definition clean_text :: "jsstring \<Rightarrow> error + jsstring" where
  "clean_text text =
     (if starts_with_tag text
      then (case first_element text of
              None \<Rightarrow> Inl TypeError
            | Some (name, a, inner) \<Rightarrow> Inr (trim_both is_space inner))
      else Inr (remove_elements text))"

text \<open>
  Two tools for the proofs: the first success among \<open>f n, \<dots>, f 0\<close> in this order, and among
  \<open>f k, \<dots>, f (k + n)\<close>.  And the two element patterns as one, with or without a group
  around the attribute text.
\<close>

fun first_down :: "(nat \<Rightarrow> 'a option) \<Rightarrow> nat \<Rightarrow> 'a option" where
  "first_down f 0 = f 0"
| "first_down f (Suc n) = (case f (Suc n) of Some r \<Rightarrow> Some r | None \<Rightarrow> first_down f n)"

fun first_up :: "(nat \<Rightarrow> 'a option) \<Rightarrow> nat \<Rightarrow> nat \<Rightarrow> 'a option" where
  "first_up f k 0 = f k"
| "first_up f k (Suc n) = (case f k of Some r \<Rightarrow> Some r | None \<Rightarrow> first_up f (Suc k) n)"

definition closing_pat :: matcher where
  "closing_pat = sq (lit CHR ''<'') (sq (lit CHR ''/'') (sq (backref 1) (lit CHR ''>'')))"

definition element_pat :: "bool \<Rightarrow> nat \<Rightarrow> matcher" where
  "element_pat b gi =
     sq (lit CHR ''<'') (sq (grp 1 (plus (cls is_word)))
     (sq (if b then grp 2 (star (not_chr CHR ''>'')) else star (not_chr CHR ''>''))
     (sq (lit CHR ''>'') (sq (grp gi (lstar dot)) closing_pat))))"

text \<open>
  The state in which the element pattern ends on an element that starts at index \<open>i\<close>.
\<close>

definition element_state :: "bool \<Rightarrow> nat \<Rightarrow> nat \<Rightarrow> jsstring \<times> jsstring \<times> jsstring \<Rightarrow> mstate" where
  "element_state b gi i e =
     (case e of (name, a, inner) \<Rightarrow>
        \<lparr>pos = i + element_length e,
         caps = (if b then (\<lambda>n. None)(1 \<mapsto> name, 2 \<mapsto> a) else (\<lambda>n. None)(1 \<mapsto> name))(gi \<mapsto> inner)\<rparr>)"

section \<open>Matches, gaps and progress\<close>

text \<open>
  A matcher is forward when every success comes from calling the continuation at a position
  that is not before the start and not past the end of the subject.
\<close>

definition forward :: "matcher \<Rightarrow> bool" where
  "forward m \<longleftrightarrow>
     (\<forall>s x c r. pos x \<le> length s \<longrightarrow> m s x c = Some r \<longrightarrow>
        (\<exists>y. pos x \<le> pos y \<and> pos y \<le> length s \<and> c y = Some r))"

text \<open>
  The anchor that the callback pushes for a match, if it does not throw; the text between
  the matches (\<open>gaps\<close>), interleaving (\<open>weave\<close>), and the matches of a global search lying
  one after the other (\<open>chain\<close>).
\<close>

definition anchor_of :: "'g externals \<Rightarrow> jsstring \<Rightarrow> nat \<times> mstate \<Rightarrow> jsstring anchor option" where
  "anchor_of E str r = (case callback_of E str r of Inl e \<Rightarrow> None | Inr ar \<Rightarrow> Some (fst ar))"

fun weave :: "'a list list \<Rightarrow> 'a list list \<Rightarrow> 'a list" where
  "weave [] xs = []"
| "weave (g # gs) [] = g"
| "weave (g # gs) (x # xs) = g @ x @ weave gs xs"

fun gaps :: "jsstring \<Rightarrow> nat \<Rightarrow> (nat \<times> mstate) list \<Rightarrow> jsstring list" where
  "gaps s np [] = [drop np s]"
| "gaps s np (r # rs) = take (fst r - np) (drop np s) # gaps s (pos (snd r)) rs"

fun chain :: "jsstring \<Rightarrow> nat \<Rightarrow> (nat \<times> mstate) list \<Rightarrow> bool" where
  "chain s np [] = True"
| "chain s np (r # rs) =
     (np \<le> fst r \<and> fst r \<le> pos (snd r) \<and> pos (snd r) \<le> length s \<and> chain s (pos (snd r)) rs)"

section \<open>A sample environment\<close>

text \<open>
  The document of the specification's example, \<^verbatim>\<open>"# A\n## B\n# C"\<close>, and the HTML that
  marked (with its default heading ids) makes of it.
\<close>

definition example_md :: jsstring where
  "example_md = js ''# A'' @ nl @ js ''## B'' @ nl @ js ''# C''"

definition example_html :: jsstring where
  \<open>example_html =
     js ''<h1 id="a">A</h1>'' @ nl @ js ''<h2 id="b">B</h2>'' @ nl @ js ''<h1 id="c">C</h1>'' @ nl\<close>

text \<open>
  An instance of the external collaborators for the examples: a parser that knows the
  example document and returns any other input as it is (as marked does for a block of
  HTML), an emoji pattern that matches the one code unit U+263A, \<open>ascii_lower\<close> (what
  \<open>toLowerCase\<close> does on ASCII text), and a highlighter that knows no grammar.
\<close>

definition sample_env :: "unit externals" where
  "sample_env =
     \<lparr>marked_parse = (\<lambda>r s. if s = example_md then example_html else s),
      emojiRegex = cls (\<lambda>c. c = 0x263A),
      toLowerCase = ascii_lower, prism_languages = (\<lambda>l. None),
      prism_highlight = (\<lambda>c g i. c)\<rparr>"

section \<open>Proof tools\<close>

text \<open>The length of the run of characters of a class from an index on.\<close>

definition run :: "(jschar \<Rightarrow> bool) \<Rightarrow> jsstring \<Rightarrow> nat \<Rightarrow> nat" where
  "run p s i = length (takeWhile p (drop i s))"

declare star.simps [simp del] lstar.simps [simp del] exec_from.simps [simp del]
  match_all_from.simps [simp del]

section \<open>Evaluation on explicit states\<close>

lemma cls_step:
  "cls p s \<lparr>pos = i, caps = k\<rparr> c =
     (if i < length s \<and> p (s ! i) then c \<lparr>pos = i + 1, caps = k\<rparr> else None)"
  by (simp add: cls_def)

lemma sq_step: "sq m1 m2 s \<lparr>pos = i, caps = k\<rparr> c = m1 s \<lparr>pos = i, caps = k\<rparr> (\<lambda>y. m2 s y c)"
  by (simp add: sq_def)

lemma alt_step:
  "alt m1 m2 s \<lparr>pos = i, caps = k\<rparr> c =
     (case m1 s \<lparr>pos = i, caps = k\<rparr> c of Some r \<Rightarrow> Some r | None \<Rightarrow> m2 s \<lparr>pos = i, caps = k\<rparr> c)"
  by (simp add: alt_def)

lemma opt_step:
  "opt m s \<lparr>pos = i, caps = k\<rparr> c =
     (case m s \<lparr>pos = i, caps = k\<rparr> (\<lambda>y. if pos y = i then None else c y) of
        Some r \<Rightarrow> Some r | None \<Rightarrow> c \<lparr>pos = i, caps = k\<rparr>)"
  by (simp add: opt_def)

lemma star_step:
  "star m s \<lparr>pos = i, caps = k\<rparr> c =
     (case m s \<lparr>pos = i, caps = k\<rparr>
             (\<lambda>y. if i < pos y \<and> pos y \<le> length s then star m s y c else None) of
        Some r \<Rightarrow> Some r | None \<Rightarrow> c \<lparr>pos = i, caps = k\<rparr>)"
  by (subst star.simps) simp

lemma lstar_step:
  "lstar m s \<lparr>pos = i, caps = k\<rparr> c =
     (case c \<lparr>pos = i, caps = k\<rparr> of
        Some r \<Rightarrow> Some r
      | None \<Rightarrow> m s \<lparr>pos = i, caps = k\<rparr>
                  (\<lambda>y. if i < pos y \<and> pos y \<le> length s then lstar m s y c else None))"
  by (subst lstar.simps) (simp split: option.split)

lemma grp_step:
  "grp n m s \<lparr>pos = i, caps = k\<rparr> c =
     m s \<lparr>pos = i, caps = k\<rparr>
       (\<lambda>y. c (y\<lparr>caps := (caps y)(n \<mapsto> take (pos y - i) (drop i s))\<rparr>))"
  by (simp add: grp_def)

lemma backref_step:
  "backref n s \<lparr>pos = i, caps = k\<rparr> c =
     (case k n of
        None \<Rightarrow> c \<lparr>pos = i, caps = k\<rparr>
      | Some t \<Rightarrow>
          if take (length t) (drop i s) = t then c \<lparr>pos = i + length t, caps = k\<rparr> else None)"
  by (simp add: backref_def split: option.split)

lemma bol_step: "bol s \<lparr>pos = i, caps = k\<rparr> c = (if i = 0 then c \<lparr>pos = i, caps = k\<rparr> else None)"
  by (simp add: bol_def)

lemma eol_step:
  "eol s \<lparr>pos = i, caps = k\<rparr> c = (if i = length s then c \<lparr>pos = i, caps = k\<rparr> else None)"
  by (simp add: eol_def)

lemma nla_step:
  "nla m s \<lparr>pos = i, caps = k\<rparr> c =
     (case m s \<lparr>pos = i, caps = k\<rparr> Some of Some r \<Rightarrow> None | None \<Rightarrow> c \<lparr>pos = i, caps = k\<rparr>)"
  by (simp add: nla_def)

lemmas rx_steps = cls_step sq_step alt_step opt_step star_step lstar_step grp_step backref_step
  bol_step eol_step nla_step plus_def lit_def dot_def not_chr_def lit_ci_def start_at_def
  is_space_def is_digit_def is_word_def is_line_terminator_def space_or_hyphen_def

lemmas rx_eval = rx_steps exec_from.simps match_all_from.simps
  matched_def replace_all_def replace_first_def regex_test_def match_global_def js_def
  nl_def sp_def

section \<open>Leftmost matches\<close>

lemma all_from_split:
  "(\<forall>j. i \<le> j \<and> Q j \<longrightarrow> P j) \<longleftrightarrow> (Q i \<longrightarrow> P i) \<and> (\<forall>j. Suc i \<le> j \<and> Q j \<longrightarrow> P j)"
proof -
  have "\<And>j. i \<le> j \<longleftrightarrow> j = i \<or> Suc i \<le> j" by auto
  then show ?thesis by metis
qed

lemma exec_from_None_iff:
  "exec_from m s i = None \<longleftrightarrow> (\<forall>j. i \<le> j \<and> j \<le> length s \<longrightarrow> m s (start_at j) Some = None)"
proof (induction m s i rule: exec_from.induct)
  case (1 m s i)
  show ?case
  proof (cases "length s < i")
    case True
    then show ?thesis by (subst exec_from.simps) auto
  next
    case le: False
    show ?thesis
    proof (cases "m s (start_at i) Some")
      case (Some r)
      have "exec_from m s i = Some (i, r)"
        using le Some by (subst exec_from.simps) simp
      then show ?thesis using le Some by auto
    next
      case None
      have e: "exec_from m s i = exec_from m s (i + 1)"
        using le None by (subst exec_from.simps) simp
      show ?thesis
        unfolding e "1.IH"[OF le None]
        by (subst (2) all_from_split) (use None in simp)
    qed
  qed
qed

lemma exec_from_Some_iff:
  "exec_from m s i = Some (st, y) \<longleftrightarrow>
     i \<le> st \<and> st \<le> length s \<and> m s (start_at st) Some = Some y
     \<and> (\<forall>j. i \<le> j \<and> j < st \<longrightarrow> m s (start_at j) Some = None)"
proof (induction m s i rule: exec_from.induct)
  case (1 m s i)
  show ?case
  proof (cases "length s < i")
    case True
    then show ?thesis by (subst exec_from.simps) auto
  next
    case le: False
    show ?thesis
    proof (cases "m s (start_at i) Some")
      case (Some r)
      have e: "exec_from m s i = Some (i, r)"
        using le Some by (subst exec_from.simps) simp
      show ?thesis
      proof
        assume "exec_from m s i = Some (st, y)"
        with e have "st = i" "y = r" by simp_all
        then show "i \<le> st \<and> st \<le> length s \<and> m s (start_at st) Some = Some y
            \<and> (\<forall>j. i \<le> j \<and> j < st \<longrightarrow> m s (start_at j) Some = None)"
          using le Some by auto
      next
        assume a: "i \<le> st \<and> st \<le> length s \<and> m s (start_at st) Some = Some y
            \<and> (\<forall>j. i \<le> j \<and> j < st \<longrightarrow> m s (start_at j) Some = None)"
        have "st = i"
        proof (rule ccontr)
          assume "st \<noteq> i"
          with a have "i < st" by simp
          with a have "m s (start_at i) Some = None" by simp
          with Some show False by simp
        qed
        with a Some e show "exec_from m s i = Some (st, y)" by simp
      qed
    next
      case None
      have e: "exec_from m s i = exec_from m s (i + 1)"
        using le None by (subst exec_from.simps) simp
      have ne: "m s (start_at st) Some = Some y \<Longrightarrow> st \<noteq> i"
        using None by auto
      show ?thesis
        unfolding e "1.IH"[OF le None]
        by (subst (2) all_from_split) (use None ne in auto)
    qed
  qed
qed

section \<open>Quantifiers over a character class\<close>

lemma run_step: "i < length s \<Longrightarrow> p (s ! i) \<Longrightarrow> run p s i = Suc (run p s (Suc i))"
  by (simp add: run_def Cons_nth_drop_Suc[symmetric])

lemma run_stop: "\<not> (i < length s \<and> p (s ! i)) \<Longrightarrow> run p s i = 0"
  by (cases "i < length s") (simp_all add: run_def Cons_nth_drop_Suc[symmetric])

lemma run_le: "run p s i \<le> length s - i"
  unfolding run_def using length_takeWhile_le[of p "drop i s"] by simp

lemma run_all:
  assumes "j < run p s i"
  shows "p (s ! (i + j))"
proof -
  let ?d = "drop i s"
  have j: "j < length (takeWhile p ?d)" using assms by (simp add: run_def)
  then have "takeWhile p ?d ! j \<in> set (takeWhile p ?d)" by simp
  then have "p (takeWhile p ?d ! j)" by (auto dest: set_takeWhileD)
  moreover have "takeWhile p ?d ! j = ?d ! j" using j by (rule takeWhile_nth)
  moreover have "j < length ?d" using j length_takeWhile_le[of p ?d] by linarith
  then have "?d ! j = s ! (i + j)" by simp
  ultimately show ?thesis by simp
qed

lemma run_end:
  assumes "i + run p s i < length s"
  shows "\<not> p (s ! (i + run p s i))"
proof -
  let ?d = "drop i s"
  have "length (takeWhile p ?d) < length ?d" using assms by (simp add: run_def)
  then have "\<not> p (?d ! length (takeWhile p ?d))" by (rule nth_length_takeWhile)
  moreover have "?d ! length (takeWhile p ?d) = s ! (i + run p s i)"
    using assms by (simp add: run_def)
  ultimately show ?thesis by simp
qed

lemma star_cls_unfold:
  "star (cls p) s x c =
     (if pos x < length s \<and> p (s ! pos x)
      then (case star (cls p) s (x\<lparr>pos := Suc (pos x)\<rparr>) c of Some r \<Rightarrow> Some r | None \<Rightarrow> c x)
      else c x)"
  by (subst star.simps) (simp add: cls_def)

lemma lstar_cls_unfold:
  "lstar (cls p) s x c =
     (case c x of
        Some r \<Rightarrow> Some r
      | None \<Rightarrow> if pos x < length s \<and> p (s ! pos x)
                then lstar (cls p) s (x\<lparr>pos := Suc (pos x)\<rparr>) c else None)"
  by (subst lstar.simps) (simp add: cls_def split: option.split)

lemma all_le_Suc_split: "(\<forall>k \<le> Suc n. P k) \<longleftrightarrow> P 0 \<and> (\<forall>k \<le> n. P (Suc k))"
  by (metis Suc_le_mono le0 not0_implies_Suc)

lemma star_cls_None_iff:
  "star (cls p) s x c = None \<longleftrightarrow> (\<forall>k \<le> run p s (pos x). c (x\<lparr>pos := pos x + k\<rparr>) = None)"
proof (induction "length s - pos x" arbitrary: x)
  case 0
  then have "run p s (pos x) = 0" by (simp add: run_stop)
  with 0 show ?case by (subst star_cls_unfold) simp
next
  case (Suc n)
  show ?case
  proof (cases "pos x < length s \<and> p (s ! pos x)")
    case False
    then have "run p s (pos x) = 0" by (simp add: run_stop)
    with False show ?thesis by (subst star_cls_unfold) auto
  next
    case True
    then have r: "run p s (pos x) = Suc (run p s (Suc (pos x)))" by (simp add: run_step)
    have n: "n = length s - pos (x\<lparr>pos := Suc (pos x)\<rparr>)" using Suc.hyps(2) by simp
    have "star (cls p) s x c = None \<longleftrightarrow>
          star (cls p) s (x\<lparr>pos := Suc (pos x)\<rparr>) c = None \<and> c x = None"
      using True by (subst star_cls_unfold) (simp split: option.split)
    also have "\<dots> \<longleftrightarrow> (\<forall>k \<le> run p s (Suc (pos x)). c (x\<lparr>pos := Suc (pos x + k)\<rparr>) = None) \<and> c x = None"
      using Suc.hyps(1)[OF n] by simp
    also have "\<dots> \<longleftrightarrow> (\<forall>k \<le> Suc (run p s (Suc (pos x))). c (x\<lparr>pos := pos x + k\<rparr>) = None)"
      by (subst all_le_Suc_split) auto
    finally show ?thesis using r by simp
  qed
qed

lemma ex_le_Suc_split: "(\<exists>k \<le> Suc n. P k) \<longleftrightarrow> P 0 \<or> (\<exists>k \<le> n. P (Suc k))"
  by (metis Suc_le_mono le0 not0_implies_Suc)

lemma all_between_Suc: "(\<forall>j. Suc k < j \<and> j \<le> Suc n \<longrightarrow> Q j) \<longleftrightarrow> (\<forall>j. k < j \<and> j \<le> n \<longrightarrow> Q (Suc j))"
  by (metis Suc_le_mono Suc_less_eq Suc_lessE)

lemma all_pos_le_Suc: "(\<forall>j. 0 < j \<and> j \<le> Suc n \<longrightarrow> Q j) \<longleftrightarrow> (\<forall>j \<le> n. Q (Suc j))"
  by (metis Suc_le_mono gr0_conv_Suc zero_less_Suc)

lemma star_cls_Some_iff:
  "star (cls p) s x c = Some r \<longleftrightarrow>
     (\<exists>k \<le> run p s (pos x). c (x\<lparr>pos := pos x + k\<rparr>) = Some r
        \<and> (\<forall>j. k < j \<and> j \<le> run p s (pos x) \<longrightarrow> c (x\<lparr>pos := pos x + j\<rparr>) = None))"
proof (induction "length s - pos x" arbitrary: x)
  case 0
  then have "run p s (pos x) = 0" by (simp add: run_stop)
  with 0 show ?case by (subst star_cls_unfold) simp
next
  case (Suc n)
  show ?case
  proof (cases "pos x < length s \<and> p (s ! pos x)")
    case False
    then have "run p s (pos x) = 0" by (simp add: run_stop)
    with False show ?thesis by (subst star_cls_unfold) auto
  next
    case True
    let ?x' = "x\<lparr>pos := Suc (pos x)\<rparr>"
    let ?n = "run p s (Suc (pos x))"
    from True have r: "run p s (pos x) = Suc ?n" by (simp add: run_step)
    have n: "n = length s - pos ?x'" using Suc.hyps(2) by simp
    have "star (cls p) s x c = Some r \<longleftrightarrow>
          star (cls p) s ?x' c = Some r \<or> (star (cls p) s ?x' c = None \<and> c x = Some r)"
      using True by (subst star_cls_unfold) (auto split: option.split)
    also have "\<dots> \<longleftrightarrow>
       (\<exists>k \<le> ?n. c (x\<lparr>pos := Suc (pos x + k)\<rparr>) = Some r
          \<and> (\<forall>j. k < j \<and> j \<le> ?n \<longrightarrow> c (x\<lparr>pos := Suc (pos x + j)\<rparr>) = None))
       \<or> ((\<forall>k \<le> ?n. c (x\<lparr>pos := Suc (pos x + k)\<rparr>) = None) \<and> c x = Some r)"
      using Suc.hyps(1)[OF n] star_cls_None_iff[of p s ?x' c] by simp
    also have "\<dots> \<longleftrightarrow>
       (\<exists>k \<le> Suc ?n. c (x\<lparr>pos := pos x + k\<rparr>) = Some r
          \<and> (\<forall>j. k < j \<and> j \<le> Suc ?n \<longrightarrow> c (x\<lparr>pos := pos x + j\<rparr>) = None))"
      by (subst ex_le_Suc_split) (simp add: all_between_Suc all_pos_le_Suc, blast)
    finally show ?thesis using r by simp
  qed
qed

lemma lstar_cls_None_iff:
  "lstar (cls p) s x c = None \<longleftrightarrow> (\<forall>k \<le> run p s (pos x). c (x\<lparr>pos := pos x + k\<rparr>) = None)"
proof (induction "length s - pos x" arbitrary: x)
  case 0
  then have "run p s (pos x) = 0" by (simp add: run_stop)
  with 0 show ?case by (subst lstar_cls_unfold) (simp split: option.split)
next
  case (Suc n)
  show ?case
  proof (cases "pos x < length s \<and> p (s ! pos x)")
    case False
    then have "run p s (pos x) = 0" by (simp add: run_stop)
    with False show ?thesis by (subst lstar_cls_unfold) (auto split: option.split)
  next
    case True
    then have r: "run p s (pos x) = Suc (run p s (Suc (pos x)))" by (simp add: run_step)
    have n: "n = length s - pos (x\<lparr>pos := Suc (pos x)\<rparr>)" using Suc.hyps(2) by simp
    have "lstar (cls p) s x c = None \<longleftrightarrow>
          c x = None \<and> lstar (cls p) s (x\<lparr>pos := Suc (pos x)\<rparr>) c = None"
      using True by (subst lstar_cls_unfold) (simp split: option.split)
    also have "\<dots> \<longleftrightarrow> c x = None \<and> (\<forall>k \<le> run p s (Suc (pos x)). c (x\<lparr>pos := Suc (pos x + k)\<rparr>) = None)"
      using Suc.hyps(1)[OF n] by simp
    also have "\<dots> \<longleftrightarrow> (\<forall>k \<le> Suc (run p s (Suc (pos x))). c (x\<lparr>pos := pos x + k\<rparr>) = None)"
      by (subst all_le_Suc_split) auto
    finally show ?thesis using r by simp
  qed
qed

lemma all_less_Suc_split: "(\<forall>j < Suc k. Q j) \<longleftrightarrow> Q 0 \<and> (\<forall>j < k. Q (Suc j))"
  by (metis Suc_less_eq less_Suc_eq_0_disj)

lemma lstar_cls_Some_iff:
  "lstar (cls p) s x c = Some r \<longleftrightarrow>
     (\<exists>k \<le> run p s (pos x). c (x\<lparr>pos := pos x + k\<rparr>) = Some r
        \<and> (\<forall>j < k. c (x\<lparr>pos := pos x + j\<rparr>) = None))"
proof (induction "length s - pos x" arbitrary: x)
  case 0
  then have "run p s (pos x) = 0" by (simp add: run_stop)
  with 0 show ?case by (subst lstar_cls_unfold) (simp split: option.split)
next
  case (Suc n)
  show ?case
  proof (cases "pos x < length s \<and> p (s ! pos x)")
    case False
    then have "run p s (pos x) = 0" by (simp add: run_stop)
    with False show ?thesis by (subst lstar_cls_unfold) (auto split: option.split)
  next
    case True
    let ?x' = "x\<lparr>pos := Suc (pos x)\<rparr>"
    let ?n = "run p s (Suc (pos x))"
    from True have r: "run p s (pos x) = Suc ?n" by (simp add: run_step)
    have n: "n = length s - pos ?x'" using Suc.hyps(2) by simp
    have "lstar (cls p) s x c = Some r \<longleftrightarrow>
          c x = Some r \<or> (c x = None \<and> lstar (cls p) s ?x' c = Some r)"
      using True by (subst lstar_cls_unfold) (auto split: option.split)
    also have "\<dots> \<longleftrightarrow> c x = Some r \<or> (c x = None \<and>
       (\<exists>k \<le> ?n. c (x\<lparr>pos := Suc (pos x + k)\<rparr>) = Some r
          \<and> (\<forall>j < k. c (x\<lparr>pos := Suc (pos x + j)\<rparr>) = None)))"
      using Suc.hyps(1)[OF n] by simp
    also have "\<dots> \<longleftrightarrow>
       (\<exists>k \<le> Suc ?n. c (x\<lparr>pos := pos x + k\<rparr>) = Some r
          \<and> (\<forall>j < k. c (x\<lparr>pos := pos x + j\<rparr>) = None))"
      by (subst ex_le_Suc_split) (simp add: all_less_Suc_split, blast)
    finally show ?thesis using r by simp
  qed
qed

lemma run_full_iff: "run p s 0 = length s \<longleftrightarrow> list_all p s"
proof -
  have "length (takeWhile p s) = length s \<longleftrightarrow> takeWhile p s = s"
    by (metis takeWhile_eq_take take_all_iff order_refl)
  then show ?thesis by (simp add: run_def takeWhile_eq_all_conv list_all_iff)
qed

lemma foldl_snoc_map: "foldl (\<lambda>res cur. res @ [f cur]) acc xs = acc @ map f xs"
  by (induction xs arbitrary: acc) simp_all

lemma star_cls_total:
  assumes "\<And>y. c y \<noteq> None"
  shows "star (cls p) s x c = c (x\<lparr>pos := pos x + run p s (pos x)\<rparr>)"
proof -
  obtain r where r: "c (x\<lparr>pos := pos x + run p s (pos x)\<rparr>) = Some r"
    using assms by (meson not_Some_eq)
  have "star (cls p) s x c = Some r"
    unfolding star_cls_Some_iff using r by (intro exI[of _ "run p s (pos x)"]) auto
  with r show ?thesis by simp
qed

lemma star_cls_to_end:
  assumes "pos x \<le> length s"
  shows "star (cls p) s x (\<lambda>y. if pos y = length s then Some (f y) else None) =
     (if pos x + run p s (pos x) = length s then Some (f (x\<lparr>pos := length s\<rparr>)) else None)"
proof (cases "pos x + run p s (pos x) = length s")
  case True
  have "star (cls p) s x (\<lambda>y. if pos y = length s then Some (f y) else None)
        = Some (f (x\<lparr>pos := length s\<rparr>))"
    unfolding star_cls_Some_iff using True by (intro exI[of _ "run p s (pos x)"]) auto
  with True show ?thesis by simp
next
  case False
  have "run p s (pos x) \<le> length s - pos x" by (rule run_le)
  with False assms have "\<And>k. k \<le> run p s (pos x) \<Longrightarrow> pos x + k \<noteq> length s" by linarith
  then have "star (cls p) s x (\<lambda>y. if pos y = length s then Some (f y) else None) = None"
    unfolding star_cls_None_iff by simp
  with False show ?thesis by simp
qed

lemma run_to_end_iff: "j \<le> length s \<Longrightarrow> j + run p s j = length s \<longleftrightarrow> list_all p (drop j s)"
proof -
  assume j: "j \<le> length s"
  have "length (takeWhile p (drop j s)) = length (drop j s) \<longleftrightarrow> takeWhile p (drop j s) = drop j s"
    by (metis takeWhile_eq_take take_all_iff order_refl)
  then have "run p s j = length s - j \<longleftrightarrow> list_all p (drop j s)"
    by (simp add: run_def takeWhile_eq_all_conv list_all_iff)
  with j show ?thesis by auto
qed

lemma take_all_iff_le:
  assumes "n \<le> length xs"
  shows "list_all p (take n xs) \<longleftrightarrow> n \<le> length (takeWhile p xs)"
proof
  assume a: "list_all p (take n xs)"
  have "\<And>i. i < n \<Longrightarrow> p (xs ! i)"
  proof -
    fix i assume i: "i < n"
    then have "i < length (take n xs)" using assms by simp
    then have "take n xs ! i \<in> set (take n xs)" by (rule nth_mem)
    with a have "p (take n xs ! i)" by (simp only: list_all_iff)
    with i show "p (xs ! i)" by simp
  qed
  then show "n \<le> length (takeWhile p xs)" using assms by (rule length_takeWhile_less_P_nth)
next
  assume "n \<le> length (takeWhile p xs)"
  then have "take n xs = take n (takeWhile p xs)"
    by (metis takeWhile_eq_take take_take min.absorb1)
  then have "set (take n xs) \<subseteq> set (takeWhile p xs)" by (metis set_take_subset)
  then show "list_all p (take n xs)" by (auto simp: list_all_iff dest: set_takeWhileD)
qed

lemma suffix_all_iff:
  assumes "j \<le> length s"
  shows "list_all p (drop j s) \<longleftrightarrow> length s - j \<le> length (takeWhile p (rev s))"
proof -
  have "list_all p (drop j s) \<longleftrightarrow> list_all p (rev (drop j s))" by (simp add: list_all_iff)
  also have "rev (drop j s) = take (length s - j) (rev s)" by (rule rev_drop)
  also have "list_all p (take (length s - j) (rev s)) \<longleftrightarrow> length s - j \<le> length (takeWhile p (rev s))"
    by (rule take_all_iff_le) simp
  finally show ?thesis .
qed

lemma runs_apart:
  assumes "\<not> list_all p s"
  shows "length (takeWhile p s) + length (takeWhile p (rev s)) < length s"
proof (rule ccontr)
  let ?d = "length (takeWhile p s)"
  assume "\<not> ?d + length (takeWhile p (rev s)) < length s"
  then have "length s - ?d \<le> length (takeWhile p (rev s))" by simp
  moreover have d: "?d \<le> length s" by (rule length_takeWhile_le)
  ultimately have "list_all p (drop ?d s)" by (simp add: suffix_all_iff)
  moreover have "list_all p (take ?d s)" using d by (simp add: take_all_iff_le)
  ultimately have "list_all p s" by (metis append_take_drop_id list_all_append)
  with assms show False by simp
qed

section \<open>The language of a name hint: lemmas\<close>

lemma not_chr_dot: "not_chr CHR ''.'' = cls not_dot"
proof -
  have "not_dot = (\<lambda>c. c \<noteq> 46)" by (rule ext) (simp add: not_dot_def)
  then show ?thesis by (simp add: not_chr_def)
qed

lemma title_rx_at_0:
  "\<exists>y. title_rx s (start_at 0) Some = Some y \<and> pos y = run not_dot s 0"
proof -
  note nd = not_chr_dot
  have "star (cls not_dot) s (start_at 0)
          (\<lambda>y. Some (y\<lparr>caps := (caps y)(1 \<mapsto> take (pos y - pos (start_at 0)) (drop (pos (start_at 0)) s))\<rparr>))
        = Some (((start_at 0)\<lparr>pos := run not_dot s 0\<rparr>)\<lparr>caps := (caps (start_at 0))(1 \<mapsto> take (run not_dot s 0) s)\<rparr>)"
    by (subst star_cls_total) (simp_all add: start_at_def)
  then show ?thesis
    by (simp add: title_rx_def nd alt_def sq_def bol_def grp_def start_at_def)
qed

lemma title_rx_at_pos:
  assumes "0 < j" "j \<le> length s"
  shows "title_rx s (start_at j) Some \<noteq> None \<longleftrightarrow> j < length s \<and> list_all not_dot (drop j s)"
    and "title_rx s (start_at j) Some = Some y \<Longrightarrow> pos y = length s"
proof -
  note nd = not_chr_dot
  let ?x = "start_at j"
  let ?f = "\<lambda>y. y\<lparr>caps := (caps y)(2 \<mapsto> take (pos y - j) (drop j s))\<rparr>"
  have e: "title_rx s ?x Some =
     (if j < length s \<and> not_dot (s ! j)
      then star (cls not_dot) s (?x\<lparr>pos := Suc j\<rparr>) (\<lambda>y. if pos y = length s then Some (?f y) else None)
      else None)"
    using assms(1)
    by (simp add: title_rx_def nd alt_def sq_def bol_def grp_def plus_def cls_def eol_def
        start_at_def cong: if_cong)
  show "title_rx s ?x Some \<noteq> None \<longleftrightarrow> j < length s \<and> list_all not_dot (drop j s)"
  proof (cases "j < length s \<and> not_dot (s ! j)")
    case True
    then have r: "run not_dot s j = Suc (run not_dot s (Suc j))" by (simp add: run_step)
    have "title_rx s ?x Some \<noteq> None \<longleftrightarrow> Suc j + run not_dot s (Suc j) = length s"
      unfolding e using True by (subst star_cls_to_end) (simp_all add: start_at_def)
    also have "\<dots> \<longleftrightarrow> j + run not_dot s j = length s" using r by simp
    also have "\<dots> \<longleftrightarrow> list_all not_dot (drop j s)" using assms(2) by (rule run_to_end_iff)
    finally show ?thesis using True by simp
  next
    case False
    then have "j < length s \<Longrightarrow> \<not> list_all not_dot (drop j s)"
      by (auto simp: Cons_nth_drop_Suc[symmetric])
    with False show ?thesis unfolding e by auto
  qed
  show "pos y = length s" if y: "title_rx s ?x Some = Some y"
  proof (cases "j < length s \<and> not_dot (s ! j)")
    case True
    have "title_rx s ?x Some =
      (if Suc j + run not_dot s (Suc j) = length s
       then Some (?f ((?x\<lparr>pos := Suc j\<rparr>)\<lparr>pos := length s\<rparr>)) else None)"
      unfolding e using True by (subst star_cls_to_end) (simp_all add: start_at_def)
    with y show ?thesis by (auto split: if_splits)
  next
    case False
    with y show ?thesis unfolding e by auto
  qed
qed

lemma after_last_dot_drop:
  "after_last_dot s = drop (length s - length (takeWhile not_dot (rev s))) s"
  unfolding after_last_dot_def by (subst takeWhile_eq_take) (simp add: rev_take)

lemma dot_mem_iff: "46 \<in> set s \<longleftrightarrow> \<not> list_all not_dot s"
  by (auto simp: list_all_iff not_dot_def)

lemma title_matches:
  "map (matched s) (match_all_from title_rx s 0) =
     (if 46 \<in> set s \<and> after_last_dot s \<noteq> [] then [before_first_dot s, after_last_dot s]
      else [before_first_dot s])"
proof -
  let ?L = "length s"
  let ?d = "run not_dot s 0"
  let ?t = "length (takeWhile not_dot (rev s))"
  let ?n1 = "if ?d \<le> 0 then 0 + 1 else ?d"
  obtain y0 where y0: "title_rx s (start_at 0) Some = Some y0" "pos y0 = ?d"
    using title_rx_at_0 by blast
  have e0: "exec_from title_rx s 0 = Some (0, y0)"
    using y0 by (simp add: exec_from_Some_iff)
  have m0: "matched s (0, y0) = before_first_dot s"
    using y0 by (simp add: matched_def before_first_dot_def run_def takeWhile_eq_take[symmetric])
  have first: "match_all_from title_rx s 0 = (0, y0) # match_all_from title_rx s ?n1"
    using e0 y0 by (subst match_all_from.simps) simp
  have n1pos: "0 < ?n1" by simp
  have tL: "?t \<le> ?L" using length_takeWhile_le[of not_dot "rev s"] by simp
  show ?thesis
  proof (cases "46 \<in> set s \<and> after_last_dot s \<noteq> []")
    case True
    then have nall: "\<not> list_all not_dot s" by (simp add: dot_mem_iff)
    have tpos: "0 < ?t" using True by (simp add: after_last_dot_def)
    have apart: "?d + ?t < ?L" using runs_apart[OF nall] by (simp add: run_def)
    let ?j = "?L - ?t"
    have j: "?n1 \<le> ?j" "?j < ?L" "0 < ?j"
      using apart tpos by (auto simp del: length_greater_0_conv)
    have "title_rx s (start_at ?j) Some \<noteq> None"
      using j by (subst title_rx_at_pos(1)) (simp_all add: suffix_all_iff)
    then obtain y1 where y1: "title_rx s (start_at ?j) Some = Some y1" by blast
    then have py1: "pos y1 = ?L" using j by (intro title_rx_at_pos(2)[of ?j]) simp_all
    have before: "title_rx s (start_at i) Some = None" if "?n1 \<le> i" "i < ?j" for i
    proof -
      have "0 < i" "i \<le> ?L" using that n1pos by linarith+
      moreover have "\<not> list_all not_dot (drop i s)"
        using that \<open>i \<le> ?L\<close> by (simp add: suffix_all_iff)
      ultimately show ?thesis using title_rx_at_pos(1)[of i s] by blast
    qed
    have e1: "exec_from title_rx s ?n1 = Some (?j, y1)"
      unfolding exec_from_Some_iff using j y1 before by simp
    have "0 < ?L" using j by linarith
    then have "title_rx s (start_at ?L) Some = None"
      using title_rx_at_pos(1)[of ?L s] by simp
    then have e2: "exec_from title_rx s ?L = None"
      unfolding exec_from_None_iff by (metis le_antisym)
    have "match_all_from title_rx s ?n1 = [(?j, y1)]"
      using e1 e2 py1 j by (subst match_all_from.simps, simp, subst match_all_from.simps, simp)
    moreover have "matched s (?j, y1) = after_last_dot s"
      using py1 by (simp add: matched_def after_last_dot_drop)
    ultimately show ?thesis using True first m0 by simp
  next
    case False
    have none: "title_rx s (start_at i) Some = None" if "?n1 \<le> i" "i \<le> ?L" for i
    proof (cases "46 \<in> set s")
      case dot: True
      with False have "?t = 0" by (simp add: after_last_dot_def)
      then have "i < ?L \<Longrightarrow> \<not> list_all not_dot (drop i s)"
        using that by (simp add: suffix_all_iff)
      then show ?thesis using title_rx_at_pos(1)[of i s] that n1pos
        by (metis (no_types, lifting) less_le_trans)
    next
      case nodot: False
      then have "list_all not_dot s" by (simp add: dot_mem_iff)
      then have "?d = ?L" using run_full_iff by blast
      then have "\<not> i < ?L" using that by (auto split: if_splits)
      then show ?thesis using title_rx_at_pos(1)[of i s] that n1pos
        by (metis (no_types, lifting) less_le_trans)
    qed
    have "exec_from title_rx s ?n1 = None"
      unfolding exec_from_None_iff using none by blast
    then have "match_all_from title_rx s ?n1 = []"
      by (subst match_all_from.simps) simp
    with False first m0 show ?thesis by auto
  qed
qed

lemma lang_of_eq: "lang_of ttl = Inr (replace_str (js ''vue'') (js ''html'') (file_ext ttl))"
proof -
  have "match_all_from title_rx ttl 0 \<noteq> []"
    using title_matches[of ttl] by (auto split: if_splits)
  then have "match_global title_rx ttl = Some (map (matched ttl) (match_all_from title_rx ttl 0))"
    by (cases "match_all_from title_rx ttl 0") (simp_all add: match_global_def)
  then show ?thesis
    by (auto simp: lang_of_def title_matches file_ext_def)
qed

lemma md_rx_at:
  "md_rx s (start_at j) Some \<noteq> None \<longleftrightarrow>
     j = 0 \<and> length s = 2 \<and> (s ! 0 = 109 \<or> s ! 0 = 77) \<and> (s ! 1 = 100 \<or> s ! 1 = 68)"
  by (auto simp: md_rx_def rx_steps)

lemma isMarkdown_of_iff: "isMarkdown_of lang \<longleftrightarrow> ascii_lower lang = js ''md''"
proof -
  have "isMarkdown_of lang \<longleftrightarrow>
        length lang = 2 \<and> (lang ! 0 = 109 \<or> lang ! 0 = 77) \<and> (lang ! 1 = 100 \<or> lang ! 1 = 68)"
    unfolding isMarkdown_of_def regex_test_def exec_from_None_iff
    using md_rx_at[of lang] by (metis le0)
  also have "\<dots> \<longleftrightarrow> ascii_lower lang = js ''md''"
  proof (cases lang)
    case Nil
    then show ?thesis by (simp add: ascii_lower_def js_def)
  next
    case (Cons a as)
    then show ?thesis
      by (cases as; cases "tl as") (auto simp: ascii_lower_def js_def)
  qed
  finally show ?thesis .
qed

lemma run_callbacks_parse_log:
  "run_callbacks E str ms st = (r, st') \<Longrightarrow> parse_log st' = parse_log st"
proof (induction ms arbitrary: st r st')
  case Nil
  then show ?case by simp
next
  case (Cons m ms)
  show ?case
  proof (cases "callback_of E str m")
    case (Inl e)
    with Cons.prems show ?thesis by simp
  next
    case (Inr ar)
    obtain a rep where ar: "ar = (a, rep)" by (cases ar)
    obtain r2 st2 where rec: "run_callbacks E str ms (st\<lparr>anchorsFlat := anchorsFlat st @ [a]\<rparr>) = (r2, st2)"
      by (cases "run_callbacks E str ms (st\<lparr>anchorsFlat := anchorsFlat st @ [a]\<rparr>)")
    from Cons.IH[OF rec] have "parse_log st2 = parse_log st" by simp
    moreover have "st' = st2"
      using Cons.prems Inr ar rec by (cases r2) auto
    ultimately show ?thesis by simp
  qed
qed

lemma postProcess_parse_log: "parse_log (snd (postProcess E str st)) = parse_log st"
proof -
  obtain r st' where rc: "run_callbacks E str (match_all_from heading_rx str 0) st = (r, st')"
    by (cases "run_callbacks E str (match_all_from heading_rx str 0) st")
  then have "parse_log st' = parse_log st" by (rule run_callbacks_parse_log)
  moreover have "snd (postProcess E str st) = st'"
    using rc by (cases r) (simp_all add: postProcess_def)
  ultimately show ?thesis by simp
qed

lemma getHtmlStr_parse_log:
  "parse_log (snd (getHtmlStr E v st)) = parse_log st @ [replace_first bom_rx [] v]"
  by (simp add: getHtmlStr_def Let_def postProcess_parse_log)

lemma useMarked_parse_log:
  "parse_log (snd (useMarked E v ttl st)) =
     parse_log st @ [replace_first bom_rx [] (mdStr_of (ext_lang ttl) v)]"
proof -
  have l: "lang_of ttl = Inr (ext_lang ttl)" by (simp add: lang_of_eq ext_lang_def)
  have "snd (useMarked E v ttl st)
      = snd (getHtmlStr E (mdStr_of (ext_lang ttl) v) (st\<lparr>anchorsFlat := []\<rparr>))"
    unfolding useMarked_def l by (simp split: prod.split sum.split)
  then show ?thesis by (simp add: getHtmlStr_parse_log)
qed

lemma bom_empty: "replace_first bom_rx [] [] = []"
  by (simp add: bom_rx_def rx_eval)

lemma getHtmlStr_empty: "getHtmlStr E [] st = (Inr [], st\<lparr>parse_log := parse_log st @ [[]]\<rparr>)"
  by (simp add: getHtmlStr_def bom_empty)

lemma useMarked_snd:
  "snd (useMarked E v ttl st)
     = snd (getHtmlStr E (mdStr_of (ext_lang ttl) v) (st\<lparr>anchorsFlat := []\<rparr>))"
proof -
  have l: "lang_of ttl = Inr (ext_lang ttl)" by (simp add: lang_of_eq ext_lang_def)
  show ?thesis unfolding useMarked_def l by (simp split: prod.split sum.split)
qed

section \<open>Forward matchers and the frame of a replacement\<close>

lemma forwardI:
  "(\<And>s x c r. pos x \<le> length s \<Longrightarrow> m s x c = Some r \<Longrightarrow>
      \<exists>y. pos x \<le> pos y \<and> pos y \<le> length s \<and> c y = Some r) \<Longrightarrow> forward m"
  unfolding forward_def by blast

lemma forwardD:
  "forward m \<Longrightarrow> pos x \<le> length s \<Longrightarrow> m s x c = Some r \<Longrightarrow>
     \<exists>y. pos x \<le> pos y \<and> pos y \<le> length s \<and> c y = Some r"
  unfolding forward_def by blast

lemma forward_cls: "forward (cls p)"
proof (rule forwardI)
  fix s x c r
  assume "pos x \<le> length s" and a: "cls p s x c = Some r"
  then have "pos x < length s" and "c (x\<lparr>pos := pos x + 1\<rparr>) = Some r"
    by (auto simp: cls_def split: if_splits)
  then show "\<exists>y. pos x \<le> pos y \<and> pos y \<le> length s \<and> c y = Some r"
    by (intro exI[of _ "x\<lparr>pos := pos x + 1\<rparr>"]) simp
qed

lemma forward_sq:
  assumes "forward m1" "forward m2"
  shows "forward (sq m1 m2)"
proof (rule forwardI)
  fix s x c r
  assume x: "pos x \<le> length s" and a: "sq m1 m2 s x c = Some r"
  from a have "m1 s x (\<lambda>y. m2 s y c) = Some r" by (simp add: sq_def)
  from forwardD[OF assms(1) x this]
  obtain y where y: "pos x \<le> pos y" "pos y \<le> length s" "m2 s y c = Some r" by blast
  from forwardD[OF assms(2) y(2,3)]
  obtain z where "pos y \<le> pos z" "pos z \<le> length s" "c z = Some r" by blast
  with y(1) show "\<exists>y. pos x \<le> pos y \<and> pos y \<le> length s \<and> c y = Some r"
    by (intro exI[of _ z]) simp
qed

lemma forward_alt:
  assumes "forward m1" "forward m2"
  shows "forward (alt m1 m2)"
proof (rule forwardI)
  fix s x c r
  assume x: "pos x \<le> length s" and a: "alt m1 m2 s x c = Some r"
  then have "m1 s x c = Some r \<or> m2 s x c = Some r"
    by (auto simp: alt_def split: option.splits)
  then show "\<exists>y. pos x \<le> pos y \<and> pos y \<le> length s \<and> c y = Some r"
    using forwardD[OF assms(1) x] forwardD[OF assms(2) x] by blast
qed

lemma forward_opt:
  assumes "forward m"
  shows "forward (opt m)"
proof (rule forwardI)
  fix s x c r
  assume x: "pos x \<le> length s" and a: "opt m s x c = Some r"
  then consider "m s x (\<lambda>y. if pos y = pos x then None else c y) = Some r" | "c x = Some r"
    by (auto simp: opt_def split: option.splits)
  then show "\<exists>y. pos x \<le> pos y \<and> pos y \<le> length s \<and> c y = Some r"
  proof cases
    case 1
    from forwardD[OF assms x 1]
    obtain y where "pos x \<le> pos y" "pos y \<le> length s"
      "(if pos y = pos x then None else c y) = Some r" by blast
    then show ?thesis by (intro exI[of _ y]) (auto split: if_splits)
  next
    case 2
    with x show ?thesis by (intro exI[of _ x]) simp
  qed
qed

lemma star_forward_aux:
  "forward m \<Longrightarrow> pos x \<le> length s \<Longrightarrow> star m s x c = Some r \<Longrightarrow>
     \<exists>y. pos x \<le> pos y \<and> pos y \<le> length s \<and> c y = Some r"
proof (induction m s x c rule: star.induct)
  case (1 m s x c)
  let ?k = "\<lambda>y. if pos x < pos y \<and> pos y \<le> length s then star m s y c else None"
  have fm: "forward m" using "1.prems"(1) .
  have xs: "pos x \<le> length s" using "1.prems"(2) .
  from "1.prems"(3) consider "m s x ?k = Some r" | "c x = Some r"
    by (subst (asm) star.simps) (auto split: option.splits)
  then show ?case
  proof cases
    case a: 1
    from forwardD[OF fm xs a]
    obtain y where y: "pos x \<le> pos y" "pos y \<le> length s" "?k y = Some r" by blast
    then have g: "pos x < pos y \<and> pos y \<le> length s" and s: "star m s y c = Some r"
      by (auto split: if_splits)
    from "1.IH"[OF g fm y(2) s]
    obtain z where "pos y \<le> pos z" "pos z \<le> length s" "c z = Some r" by blast
    with y(1) show ?thesis by (intro exI[of _ z]) simp
  next
    case 2
    with xs show ?thesis by (intro exI[of _ x]) simp
  qed
qed

lemma forward_star: "forward m \<Longrightarrow> forward (star m)"
  by (rule forwardI) (rule star_forward_aux)

lemma lstar_forward_aux:
  "forward m \<Longrightarrow> pos x \<le> length s \<Longrightarrow> lstar m s x c = Some r \<Longrightarrow>
     \<exists>y. pos x \<le> pos y \<and> pos y \<le> length s \<and> c y = Some r"
proof (induction m s x c rule: lstar.induct)
  case (1 m s x c)
  let ?k = "\<lambda>y. if pos x < pos y \<and> pos y \<le> length s then lstar m s y c else None"
  have fm: "forward m" using "1.prems"(1) .
  have xs: "pos x \<le> length s" using "1.prems"(2) .
  from "1.prems"(3) consider "c x = Some r" | "c x = None" "m s x ?k = Some r"
    by (subst (asm) lstar.simps) (auto split: option.splits)
  then show ?case
  proof cases
    case 1
    with xs show ?thesis by (intro exI[of _ x]) simp
  next
    case a: 2
    from forwardD[OF fm xs a(2)]
    obtain y where y: "pos x \<le> pos y" "pos y \<le> length s" "?k y = Some r" by blast
    then have g: "pos x < pos y \<and> pos y \<le> length s" and s: "lstar m s y c = Some r"
      by (auto split: if_splits)
    from "1.IH"[OF a(1) g fm y(2) s]
    obtain z where "pos y \<le> pos z" "pos z \<le> length s" "c z = Some r" by blast
    with y(1) show ?thesis by (intro exI[of _ z]) simp
  qed
qed

lemma forward_lstar: "forward m \<Longrightarrow> forward (lstar m)"
  by (rule forwardI) (rule lstar_forward_aux)

lemma forward_plus: "forward m \<Longrightarrow> forward (plus m)"
  by (simp add: plus_def forward_sq forward_star)

lemma forward_grp:
  assumes "forward m"
  shows "forward (grp n m)"
proof (rule forwardI)
  fix s x c r
  assume x: "pos x \<le> length s" and a: "grp n m s x c = Some r"
  let ?k = "\<lambda>y. c (y\<lparr>caps := (caps y)(n \<mapsto> take (pos y - pos x) (drop (pos x) s))\<rparr>)"
  from a have "m s x ?k = Some r" by (simp add: grp_def)
  from forwardD[OF assms x this]
  obtain y where y: "pos x \<le> pos y" "pos y \<le> length s" "?k y = Some r" by blast
  then show "\<exists>y. pos x \<le> pos y \<and> pos y \<le> length s \<and> c y = Some r"
    by (intro exI[of _ "y\<lparr>caps := (caps y)(n \<mapsto> take (pos y - pos x) (drop (pos x) s))\<rparr>"]) simp
qed

lemma forward_backref: "forward (backref n)"
proof (rule forwardI)
  fix s x c r
  assume x: "pos x \<le> length s" and a: "backref n s x c = Some r"
  show "\<exists>y. pos x \<le> pos y \<and> pos y \<le> length s \<and> c y = Some r"
  proof (cases "caps x n")
    case None
    with a x show ?thesis by (intro exI[of _ x]) (simp add: backref_def)
  next
    case (Some t)
    with a have t: "take (length t) (drop (pos x) s) = t"
      and c: "c (x\<lparr>pos := pos x + length t\<rparr>) = Some r"
      by (auto simp: backref_def split: if_splits)
    have "length (take (length t) (drop (pos x) s)) \<le> length s - pos x" by simp
    with t have "length t \<le> length s - pos x" by simp
    with x c show ?thesis by (intro exI[of _ "x\<lparr>pos := pos x + length t\<rparr>"]) simp
  qed
qed

lemma forward_here:
  assumes "\<And>s x c r. m s x c = Some r \<Longrightarrow> c x = Some r"
  shows "forward m"
proof (rule forwardI)
  fix s x c r
  assume "pos x \<le> length s" "m s x c = Some r"
  with assms show "\<exists>y. pos x \<le> pos y \<and> pos y \<le> length s \<and> c y = Some r"
    by (intro exI[of _ x]) simp
qed

lemma forward_bol: "forward bol"
  by (rule forward_here) (simp add: bol_def split: if_splits)

lemma forward_eol: "forward eol"
  by (rule forward_here) (simp add: eol_def split: if_splits)

lemma forward_nla: "forward (nla m)"
  by (rule forward_here) (simp add: nla_def split: option.splits)

lemmas forward_rules = forward_cls forward_sq forward_alt forward_opt forward_star forward_lstar
  forward_plus forward_grp forward_backref forward_bol forward_eol forward_nla

lemma exec_from_forward:
  assumes "forward m" "exec_from m s i = Some (st, y)"
  shows "st \<le> pos y \<and> pos y \<le> length s"
proof -
  from assms(2) have st: "st \<le> length s" and m: "m s (start_at st) Some = Some y"
    by (simp_all add: exec_from_Some_iff)
  have "pos (start_at st) \<le> length s" using st by (simp add: start_at_def)
  from forwardD[OF assms(1) this m] show ?thesis by (auto simp: start_at_def)
qed

lemma forward_heading_rx: "forward heading_rx"
  unfolding heading_rx_def lit_def lit_ci_def not_chr_def dot_def
  by (intro forward_rules)

lemma chain_mono: "chain s np rs \<Longrightarrow> np' \<le> np \<Longrightarrow> chain s np' rs"
  by (cases rs) auto

lemma match_all_from_Nil: "exec_from m s i = None \<Longrightarrow> match_all_from m s i = []"
  by (subst match_all_from.simps) simp

lemma match_all_from_Cons:
  "exec_from m s i = Some (st, y) \<Longrightarrow>
   match_all_from m s i = (st, y) # match_all_from m s (if pos y \<le> st then st + 1 else pos y)"
  by (subst match_all_from.simps) simp

lemma match_all_starts:
  "sorted_wrt (<) (map fst (match_all_from m s i))
   \<and> (\<forall>r \<in> set (match_all_from m s i). i \<le> fst r)"
proof (induction m s i rule: match_all_from.induct)
  case (1 m s i)
  show ?case
  proof (cases "exec_from m s i")
    case None
    then show ?thesis by (simp add: match_all_from_Nil)
  next
    case (Some p)
    obtain st y where p: "p = (st, y)" by (cases p)
    with Some have e: "exec_from m s i = Some (st, y)" by simp
    let ?n = "if pos y \<le> st then st + 1 else pos y"
    have ist: "i \<le> st" using e by (simp add: exec_from_Some_iff)
    have n: "st < ?n" by simp
    from "1.IH"[OF e refl]
    have ih: "sorted_wrt (<) (map fst (match_all_from m s ?n))"
      "\<forall>r \<in> set (match_all_from m s ?n). ?n \<le> fst r" by simp_all
    have gt: "\<forall>r \<in> set (match_all_from m s ?n). st < fst r"
      using ih(2) n by (meson less_le_trans)
    then have "\<forall>r \<in> set (match_all_from m s ?n). i \<le> fst r"
      using ist by fastforce
    with ih(1) ist gt show ?thesis
      unfolding match_all_from_Cons[OF e] by simp
  qed
qed

lemma match_all_chain: "forward m \<Longrightarrow> chain s i (match_all_from m s i)"
proof (induction m s i rule: match_all_from.induct)
  case (1 m s i)
  note fm = "1.prems"
  show ?case
  proof (cases "exec_from m s i")
    case None
    then show ?thesis by (simp add: match_all_from_Nil)
  next
    case (Some p)
    obtain st y where p: "p = (st, y)" by (cases p)
    with Some have e: "exec_from m s i = Some (st, y)" by simp
    let ?n = "if pos y \<le> st then st + 1 else pos y"
    have ist: "i \<le> st" using e by (simp add: exec_from_Some_iff)
    have f: "st \<le> pos y \<and> pos y \<le> length s" using exec_from_forward[OF fm e] .
    have "chain s ?n (match_all_from m s ?n)" using "1.IH"[OF e refl fm] .
    then have "chain s (pos y) (match_all_from m s ?n)" by (rule chain_mono) simp
    with ist f show ?thesis unfolding match_all_from_Cons[OF e] by simp
  qed
qed

lemma splice_weave:
  "chain s np (map fst rs) \<Longrightarrow> np \<le> length s \<Longrightarrow>
   splice s np rs = weave (gaps s np (map fst rs)) (map snd rs)
   \<and> drop np s = weave (gaps s np (map fst rs)) (map (matched s) (map fst rs))"
proof (induction rs arbitrary: np)
  case Nil
  then show ?case by simp
next
  case (Cons a rs)
  obtain r rep where a: "a = (r, rep)" by (cases a)
  from Cons.prems a have c: "np \<le> fst r" "fst r \<le> pos (snd r)" "pos (snd r) \<le> length s"
    "chain s (pos (snd r)) (map fst rs)" by simp_all
  from Cons.IH[OF c(4) c(3)]
  have ih: "splice s (pos (snd r)) rs = weave (gaps s (pos (snd r)) (map fst rs)) (map snd rs)"
    "drop (pos (snd r)) s = weave (gaps s (pos (snd r)) (map fst rs)) (map (matched s) (map fst rs))"
    by simp_all
  have "drop np s = take (fst r - np) (drop np s) @ drop (fst r) s"
    using c(1) by (metis append_take_drop_id drop_drop le_add_diff_inverse2)
  also have "drop (fst r) s = take (pos (snd r) - fst r) (drop (fst r) s) @ drop (pos (snd r)) s"
    using c(2) by (metis append_take_drop_id drop_drop le_add_diff_inverse2)
  finally have d: "drop np s = take (fst r - np) (drop np s) @ matched s r @ drop (pos (snd r)) s"
    by (simp add: matched_def)
  show ?case
    using c(1) ih d by (simp add: a)
qed

lemma run_callbacks_prefix:
  "run_callbacks E str ms st = (r, st') \<Longrightarrow>
   \<exists>k \<le> length ms.
     map Some (anchorsFlat st') = map Some (anchorsFlat st) @ map (anchor_of E str) (take k ms)
     \<and> (case r of Inr reps \<Rightarrow> k = length ms
                  | Inl e \<Rightarrow> k < length ms \<and> anchor_of E str (ms ! k) = None)"
proof (induction ms arbitrary: st r st')
  case Nil
  then show ?case by auto
next
  case (Cons m ms)
  show ?case
  proof (cases "callback_of E str m")
    case (Inl e)
    with Cons.prems have "r = Inl e" "st' = st" by simp_all
    moreover have "anchor_of E str m = None" by (simp add: anchor_of_def Inl)
    ultimately show ?thesis by (intro exI[of _ 0]) simp
  next
    case (Inr ar)
    obtain a rep where ar: "ar = (a, rep)" by (cases ar)
    let ?st = "st\<lparr>anchorsFlat := anchorsFlat st @ [a]\<rparr>"
    obtain r2 st2 where rec: "run_callbacks E str ms ?st = (r2, st2)"
      by (cases "run_callbacks E str ms ?st")
    have st': "st' = st2" using Cons.prems Inr ar rec by (cases r2) auto
    have a: "anchor_of E str m = Some a" by (simp add: anchor_of_def Inr ar)
    from Cons.IH[OF rec] obtain k where k: "k \<le> length ms"
      "map Some (anchorsFlat st2) = map Some (anchorsFlat ?st) @ map (anchor_of E str) (take k ms)"
      "case r2 of Inr reps \<Rightarrow> k = length ms
                | Inl e \<Rightarrow> k < length ms \<and> anchor_of E str (ms ! k) = None"
      by blast
    have "case r of Inr reps \<Rightarrow> Suc k = length (m # ms)
                  | Inl e \<Rightarrow> Suc k < length (m # ms) \<and> anchor_of E str ((m # ms) ! Suc k) = None"
      using Cons.prems Inr ar rec k(3) by (cases r2) auto
    with k(1,2) a st' show ?thesis by (intro exI[of _ "Suc k"]) simp
  qed
qed

lemma callback_of_eval:
  assumes "fst r = st" "pos (snd r) = e" "caps (snd r) 1 = Some lvl" "caps (snd r) 2 = hid"
    "caps (snd r) 3 = Some text" "textNoTag text = Inr tnt"
    "attrsNoId (take (e - st) (drop st str)) = Inr attrs"
  shows "callback_of E str r =
     Inr (\<lparr>title = tnt, href = js ''#'' @ idNoEmoji E hid text, level = lvl\<rparr>,
          heading_html lvl attrs (idNoEmoji E hid text) text)"
  using assms
  by (simp add: callback_of_def heading_callback_def cap_str_def matched_def Let_def
      del: One_nat_def)

lemma postProcess_no_match:
  "match_all_from heading_rx str 0 = [] \<Longrightarrow> postProcess E str st = (Inr str, st)"
  by (simp add: postProcess_def)

section \<open>Trimming and collapsing by global replacement\<close>

lemma trim_id_rx_eq: "trim_id_rx = trim_rx space_or_hyphen"
  by (simp add: trim_id_rx_def trim_rx_def)

lemma trim_space_rx_eq: "trim_space_rx = trim_rx is_space"
  by (simp add: trim_space_rx_def trim_rx_def)

lemma trim_rx_at_0: "\<exists>y. trim_rx p s (start_at 0) Some = Some y \<and> pos y = run p s 0"
proof -
  have "star (cls p) s (start_at 0) Some = Some ((start_at 0)\<lparr>pos := pos (start_at 0) + run p s (pos (start_at 0))\<rparr>)"
    by (rule star_cls_total) simp
  then show ?thesis by (simp add: trim_rx_def alt_def sq_def bol_def start_at_def)
qed

lemma trim_rx_at_pos:
  assumes "0 < j" "j \<le> length s"
  shows "trim_rx p s (start_at j) Some =
     (if list_all p (drop j s) then Some ((start_at j)\<lparr>pos := length s\<rparr>) else None)"
proof -
  have "trim_rx p s (start_at j) Some
      = star (cls p) s (start_at j) (\<lambda>y. if pos y = length s then Some y else None)"
    using assms(1) by (simp add: trim_rx_def alt_def sq_def bol_def eol_def start_at_def)
  also have "\<dots> = (if pos (start_at j) + run p s (pos (start_at j)) = length s
      then Some ((start_at j)\<lparr>pos := length s\<rparr>) else None)"
    using assms(2) by (intro star_cls_to_end) (simp add: start_at_def)
  finally show ?thesis using run_to_end_iff[OF assms(2), of p] by (simp add: start_at_def)
qed

lemma takeWhile_take_long:
  assumes "length (takeWhile p xs) < n"
  shows "takeWhile p (take n xs) = takeWhile p xs"
proof -
  let ?t = "takeWhile p xs" and ?d = "dropWhile p xs"
  have "take n (?t @ ?d) = ?t @ take (n - length ?t) ?d"
    using assms by (simp del: takeWhile_dropWhile_id)
  then have e: "take n xs = ?t @ take (n - length ?t) ?d"
    by (simp only: takeWhile_dropWhile_id)
  obtain k where k: "n - length ?t = Suc k"
    using assms by (cases "n - length ?t") simp_all
  have z: "takeWhile p (take (Suc k) ?d) = []"
  proof (cases "?d = []")
    case True
    show ?thesis unfolding True by simp
  next
    case False
    then have "\<not> p (hd ?d)" by (rule hd_dropWhile)
    moreover from False obtain d ds where "?d = d # ds" by (cases ?d) simp_all
    ultimately show ?thesis by simp
  qed
  have "\<And>x. x \<in> set ?t \<Longrightarrow> p x" by (auto dest: set_takeWhileD)
  then have "takeWhile p (?t @ take (Suc k) ?d) = ?t @ takeWhile p (take (Suc k) ?d)"
    by (rule takeWhile_append2)
  then show ?thesis unfolding e k z by simp
qed

lemma rev_drop_rev: "rev (drop n (rev ys)) = take (length ys - n) ys"
  by (simp add: rev_drop)

lemma trim_both_eq:
  assumes "\<not> list_all p s"
  shows "trim_both p s =
     take (length s - length (takeWhile p (rev s)) - length (takeWhile p s))
       (drop (length (takeWhile p s)) s)"
proof -
  let ?a = "length (takeWhile p s)" and ?t = "length (takeWhile p (rev s))"
  have apart: "?a + ?t < length s" by (rule runs_apart[OF assms])
  have d: "dropWhile p s = drop ?a s" by (rule dropWhile_eq_drop)
  have "takeWhile p (rev (drop ?a s)) = takeWhile p (take (length s - ?a) (rev s))"
    by (simp add: rev_drop)
  also have "\<dots> = takeWhile p (rev s)" using apart by (intro takeWhile_take_long) simp
  finally have t: "length (takeWhile p (rev (drop ?a s))) = ?t" by simp
  have "trim_both p s = rev (drop ?t (rev (drop ?a s)))"
    unfolding trim_both_def d by (subst dropWhile_eq_drop) (simp only: t)
  also have "\<dots> = take (length s - ?a - ?t) (drop ?a s)"
    by (simp only: rev_drop_rev length_drop)
  also have "length s - ?a - ?t = length s - ?t - ?a" by simp
  finally show ?thesis .
qed

lemma trim_both_all: "list_all p s \<Longrightarrow> trim_both p s = []"
proof -
  assume "list_all p s"
  then have "\<forall>x \<in> set s. p x" by (simp only: list_all_iff)
  then have "dropWhile p s = []" by (rule dropWhile_eq_Nil_conv[THEN iffD2])
  then show ?thesis by (simp only: trim_both_def rev.simps dropWhile.simps)
qed

lemma exec_past_end: "exec_from m s (Suc (length s)) = None"
  by (subst exec_from.simps) simp

lemma trim_rx_at_end:
  assumes "0 < length s"
  shows "\<exists>y. exec_from (trim_rx p) s (length s) = Some (length s, y) \<and> pos y = length s"
proof -
  have "trim_rx p s (start_at (length s)) Some = Some ((start_at (length s))\<lparr>pos := length s\<rparr>)"
    using assms by (subst trim_rx_at_pos) simp_all
  then have "exec_from (trim_rx p) s (length s)
      = Some (length s, (start_at (length s))\<lparr>pos := length s\<rparr>)"
    by (auto simp: exec_from_Some_iff)
  then show ?thesis by simp
qed

lemma replace_all_trim: "replace_all (trim_rx p) [] s = trim_both p s"
proof -
  let ?m = "trim_rx p"
  let ?L = "length s"
  let ?a = "run p s 0"
  let ?t = "length (takeWhile p (rev s))"
  let ?n1 = "if ?a \<le> 0 then 0 + 1 else ?a"
  obtain y0 where y0: "?m s (start_at 0) Some = Some y0" "pos y0 = ?a"
    using trim_rx_at_0 by blast
  have e0: "exec_from ?m s 0 = Some (0, y0)" using y0 by (simp add: exec_from_Some_iff)
  have first: "match_all_from ?m s 0 = (0, y0) # match_all_from ?m s ?n1"
    using match_all_from_Cons[OF e0] y0 by simp
  have a_def: "?a = length (takeWhile p s)" by (simp add: run_def)
  show ?thesis
  proof (cases "s = []")
    case True
    have "exec_from ?m s ?n1 = None"
      using True by (simp add: exec_from_None_iff run_def)
    then have "match_all_from ?m s 0 = [(0, y0)]"
      using first by (simp add: match_all_from_Nil)
    then show ?thesis using True by (simp add: replace_all_def trim_both_def)
  next
    case ne: False
    then have Lpos: "0 < ?L" by simp
    obtain yL where yL: "exec_from ?m s ?L = Some (?L, yL)" "pos yL = ?L"
      using trim_rx_at_end[OF Lpos] by blast
    have last: "match_all_from ?m s ?L = [(?L, yL)]"
      using match_all_from_Cons[OF yL(1)] yL(2)
      by (simp add: match_all_from_Nil exec_past_end)
    show ?thesis
    proof (cases "list_all p s")
      case True
      then have aL: "?a = ?L" using run_full_iff by blast
      then have "?n1 = ?L" using Lpos by simp
      then have "match_all_from ?m s 0 = [(0, y0), (?L, yL)]"
        using first last by simp
      then show ?thesis
        using y0(2) yL(2) aL by (simp add: replace_all_def trim_both_all[OF True])
    next
      case False
      have apart: "?a + ?t < ?L" using runs_apart[OF False] by (simp add: run_def)
      let ?j = "?L - ?t"
      have j: "?n1 \<le> ?j" "?j \<le> ?L" "0 < ?j" "?a \<le> ?j" using apart by auto
      have "?m s (start_at ?j) Some = Some ((start_at ?j)\<lparr>pos := ?L\<rparr>)"
        using j by (subst trim_rx_at_pos) (simp_all add: suffix_all_iff)
      then obtain y1 where y1: "?m s (start_at ?j) Some = Some y1" "pos y1 = ?L"
        by simp
      have before: "?m s (start_at i) Some = None" if "?n1 \<le> i" "i < ?j" for i
      proof -
        have i: "0 < i" "i \<le> ?L" using that by (auto split: if_splits)
        moreover have "\<not> list_all p (drop i s)"
          using that i(2) by (simp add: suffix_all_iff)
        ultimately show ?thesis by (subst trim_rx_at_pos) simp_all
      qed
      have e1: "exec_from ?m s ?n1 = Some (?j, y1)"
        unfolding exec_from_Some_iff using j y1 before by simp
      note second = match_all_from_Cons[OF e1]
      have tb: "trim_both p s = take (?L - ?t - ?a) (drop ?a s)"
        using trim_both_eq[OF False] by (simp add: run_def)
      show ?thesis
      proof (cases "?t = 0")
        case True
        then have "match_all_from ?m s ?n1 = [(?L, y1)]"
          using second y1(2) by (simp add: match_all_from_Nil exec_past_end)
        then have "match_all_from ?m s 0 = [(0, y0), (?L, y1)]" using first by simp
        then show ?thesis
          using y0(2) y1(2) True tb by (simp add: replace_all_def)
      next
        case tpos: False
        then have "0 < ?t" by (metis neq0_conv)
        then have "?j < ?L" using apart by linarith
        then have "match_all_from ?m s ?n1 = [(?j, y1), (?L, yL)]"
          using second y1(2) last by simp
        then have "match_all_from ?m s 0 = [(0, y0), (?j, y1), (?L, yL)]" using first by simp
        then show ?thesis
          using y0(2) y1(2) yL(2) tb j(4) by (simp add: replace_all_def)
      qed
    qed
  qed
qed

lemma spaces_rx_at:
  "spaces_rx s (start_at j) Some =
     (if j < length s \<and> is_space (s ! j)
      then Some ((start_at j)\<lparr>pos := j + run is_space s j\<rparr>) else None)"
proof (cases "j < length s \<and> is_space (s ! j)")
  case True
  then have r: "run is_space s j = Suc (run is_space s (Suc j))" by (simp add: run_step)
  have "star (cls is_space) s ((start_at j)\<lparr>pos := j + 1\<rparr>) Some
      = Some (((start_at j)\<lparr>pos := j + 1\<rparr>)\<lparr>pos := pos ((start_at j)\<lparr>pos := j + 1\<rparr>)
           + run is_space s (pos ((start_at j)\<lparr>pos := j + 1\<rparr>))\<rparr>)"
    by (rule star_cls_total) simp
  then show ?thesis
    using True r by (simp add: spaces_rx_def plus_def sq_def cls_def start_at_def)
next
  case False
  then show ?thesis
    by (auto simp: spaces_rx_def plus_def sq_def cls_def start_at_def)
qed

lemma collapse_nospace:
  "\<forall>c \<in> set xs. \<not> is_space c \<Longrightarrow> collapse False (xs @ ys) = xs @ collapse False ys"
  by (induction xs) simp_all

lemma collapse_True_skip: "collapse True zs = collapse False (dropWhile is_space zs)"
  by (induction zs) simp_all

lemma drop_split_at:
  assumes "i \<le> j" "j < length s"
  shows "drop i s = take (j - i) (drop i s) @ s ! j # drop (Suc j) s"
proof -
  have "drop i s = take (j - i) (drop i s) @ drop (j - i) (drop i s)"
    by (rule append_take_drop_id[symmetric])
  also have "drop (j - i) (drop i s) = drop j s" using assms(1) by simp
  also have "drop j s = s ! j # drop (Suc j) s" using assms(2) by (rule Cons_nth_drop_Suc[symmetric])
  finally show ?thesis .
qed

lemma between_nospace:
  assumes "\<forall>k. i \<le> k \<and> k < j \<longrightarrow> \<not> is_space (s ! k)" "j \<le> length s"
  shows "\<forall>c \<in> set (take (j - i) (drop i s)). \<not> is_space c"
proof
  fix c assume "c \<in> set (take (j - i) (drop i s))"
  then obtain n where n: "n < length (take (j - i) (drop i s))" "take (j - i) (drop i s) ! n = c"
    by (auto simp: in_set_conv_nth)
  then have "n < j - i" by simp
  then have "c = s ! (i + n)" using n assms(2) by simp
  moreover have "i \<le> i + n \<and> i + n < j" using \<open>n < j - i\<close> by simp
  ultimately show "\<not> is_space c" using assms(1) by blast
qed

lemma splice_spaces:
  "splice s i (map (\<lambda>r. (r, [45])) (match_all_from spaces_rx s i)) = collapse False (drop i s)"
proof (induction spaces_rx s i rule: match_all_from.induct)
  case (1 s i)
  show ?case
  proof (cases "exec_from spaces_rx s i")
    case None
    then have "\<forall>k. i \<le> k \<and> k < length s \<longrightarrow> \<not> is_space (s ! k)"
      by (auto simp: exec_from_None_iff spaces_rx_at split: if_splits)
    from between_nospace[OF this] have "\<forall>c \<in> set (drop i s). \<not> is_space c" by simp
    from collapse_nospace[OF this, of "[]"] have "collapse False (drop i s) = drop i s" by simp
    with None show ?thesis by (simp add: match_all_from_Nil)
  next
    case (Some p)
    obtain j y where p: "p = (j, y)" by (cases p)
    with Some have e: "exec_from spaces_rx s i = Some (j, y)" by simp
    let ?e = "j + run is_space s j"
    from e have j: "i \<le> j" "j < length s" "is_space (s ! j)" and y: "pos y = ?e"
      and before: "\<forall>k. i \<le> k \<and> k < j \<longrightarrow> \<not> is_space (s ! k)"
      by (auto simp: exec_from_Some_iff spaces_rx_at split: if_splits)
    have r: "run is_space s j = Suc (run is_space s (Suc j))" using j by (simp add: run_step)
    then have gt: "\<not> pos y \<le> j" using y by simp
    have ih: "splice s ?e (map (\<lambda>r. (r, [45])) (match_all_from spaces_rx s ?e))
        = collapse False (drop ?e s)"
      using "1.hyps"[OF e refl] gt y by simp
    have "splice s i (map (\<lambda>r. (r, [45])) (match_all_from spaces_rx s i))
        = take (j - i) (drop i s) @ [45] @ collapse False (drop ?e s)"
      using match_all_from_Cons[OF e] gt y j(1) ih by simp
    moreover have "collapse False (drop i s)
        = take (j - i) (drop i s) @ [45] @ collapse False (drop ?e s)"
    proof -
      have ns: "\<forall>c \<in> set (take (j - i) (drop i s)). \<not> is_space c"
        using between_nospace[OF before] j(2) by simp
      have "dropWhile is_space (drop (Suc j) s) = drop ?e s"
        unfolding r by (subst dropWhile_eq_drop) (simp add: run_def add.commute)
      then have "collapse False (s ! j # drop (Suc j) s) = 45 # collapse False (drop ?e s)"
        using j(3) by (simp add: collapse_True_skip)
      then show ?thesis
        by (subst drop_split_at[OF j(1,2)]) (simp add: collapse_nospace[OF ns])
    qed
    ultimately show ?thesis by simp
  qed
qed

lemma replace_all_spaces: "replace_all spaces_rx (js ''-'') s = collapse_ws s"
  using splice_spaces[of s 0] by (simp add: replace_all_def collapse_ws_def js_def)

lemma idNoEmoji_eq:
  "idNoEmoji E hid text =
     (case hid of
        None \<Rightarrow> collapse_ws (toLowerCase E text)
      | Some i \<Rightarrow>
          if i = [] then collapse_ws (toLowerCase E text)
          else trim_both space_or_hyphen (replace_all (emojiRegex E) [] i))"
  by (simp add: idNoEmoji_def replace_all_spaces trim_id_rx_eq replace_all_trim
      split: option.split)

lemma heading_callback_href:
  "heading_callback E raw lvl hid text = Inr (a, rep) \<Longrightarrow> href a = js ''#'' @ idNoEmoji E hid text"
  by (auto simp: heading_callback_def Let_def split: sum.splits)

section \<open>The element patterns, step by step\<close>

text \<open>
  A greedy repetition of a class tries its longest run first and then the shorter ones, a
  lazy one the shortest first.  With this the element patterns are followed through from
  the \<open><\<close> to the closing tag, and shown to find exactly the elements of
  \<open>element_start\<close>; the search for the first match and the global replacement then are
  \<open>first_element\<close> and \<open>remove_elements\<close>.
\<close>

lemma element_rx_pat: "element_rx = element_pat False 2"
  by (simp add: element_rx_def element_pat_def closing_pat_def)

lemma element3_rx_pat: "element3_rx = element_pat True 3"
  by (simp add: element3_rx_def element_pat_def closing_pat_def)

lemma first_down_None_iff: "first_down f n = None \<longleftrightarrow> (\<forall>k \<le> n. f k = None)"
  by (induction n) (auto simp: le_Suc_eq split: option.splits)

lemma first_down_Some_iff:
  "first_down f n = Some r \<longleftrightarrow>
     (\<exists>k \<le> n. f k = Some r \<and> (\<forall>j. k < j \<and> j \<le> n \<longrightarrow> f j = None))"
proof (induction n)
  case 0
  then show ?case by simp
next
  case (Suc n)
  show ?case
  proof (cases "f (Suc n)")
    case None
    have "(\<exists>k \<le> Suc n. f k = Some r \<and> (\<forall>j. k < j \<and> j \<le> Suc n \<longrightarrow> f j = None))
          \<longleftrightarrow> (\<exists>k \<le> n. f k = Some r \<and> (\<forall>j. k < j \<and> j \<le> n \<longrightarrow> f j = None))"
      using None by (metis le_Suc_eq option.distinct(1))
    then show ?thesis using None Suc by simp
  next
    case (Some a)
    have "(\<exists>k \<le> Suc n. f k = Some r \<and> (\<forall>j. k < j \<and> j \<le> Suc n \<longrightarrow> f j = None)) \<longleftrightarrow> a = r"
    proof
      assume "\<exists>k \<le> Suc n. f k = Some r \<and> (\<forall>j. k < j \<and> j \<le> Suc n \<longrightarrow> f j = None)"
      then obtain k where k: "k \<le> Suc n" "f k = Some r" "\<forall>j. k < j \<and> j \<le> Suc n \<longrightarrow> f j = None"
        by blast
      have "k = Suc n"
      proof (rule ccontr)
        assume "k \<noteq> Suc n"
        then have "k < Suc n" using k(1) by simp
        then have "f (Suc n) = None" using k(3) by simp
        then show False using Some by simp
      qed
      then show "a = r" using k(2) Some by simp
    next
      assume "a = r"
      then show "\<exists>k \<le> Suc n. f k = Some r \<and> (\<forall>j. k < j \<and> j \<le> Suc n \<longrightarrow> f j = None)"
        using Some by (intro exI[of _ "Suc n"]) auto
    qed
    then show ?thesis using Some by simp
  qed
qed

lemma star_cls_first_down:
  "star (cls p) s x c = first_down (\<lambda>k. c (x\<lparr>pos := pos x + k\<rparr>)) (run p s (pos x))"
proof (cases "first_down (\<lambda>k. c (x\<lparr>pos := pos x + k\<rparr>)) (run p s (pos x))")
  case None
  then have "star (cls p) s x c = None" by (simp add: first_down_None_iff star_cls_None_iff)
  with None show ?thesis by simp
next
  case (Some r)
  then have "star (cls p) s x c = Some r" by (simp add: first_down_Some_iff star_cls_Some_iff)
  with Some show ?thesis by simp
qed

lemma first_up_None_iff: "first_up f k n = None \<longleftrightarrow> (\<forall>j \<le> n. f (k + j) = None)"
proof (induction n arbitrary: k)
  case 0
  then show ?case by simp
next
  case (Suc n)
  have "(\<forall>j \<le> Suc n. f (k + j) = None) \<longleftrightarrow> f k = None \<and> (\<forall>j \<le> n. f (Suc k + j) = None)"
  proof
    assume a: "\<forall>j \<le> Suc n. f (k + j) = None"
    have "f k = None" using a[rule_format, of 0] by simp
    moreover have "f (Suc k + j) = None" if "j \<le> n" for j
      using a[rule_format, of "Suc j"] that by simp
    ultimately show "f k = None \<and> (\<forall>j \<le> n. f (Suc k + j) = None)" by blast
  next
    assume a: "f k = None \<and> (\<forall>j \<le> n. f (Suc k + j) = None)"
    show "\<forall>j \<le> Suc n. f (k + j) = None"
    proof (intro allI impI)
      fix j assume "j \<le> Suc n"
      then show "f (k + j) = None" using a by (cases j) simp_all
    qed
  qed
  then show ?case using Suc[of "Suc k"] by (simp split: option.splits)
qed

lemma first_up_Some_iff:
  "first_up f k n = Some r \<longleftrightarrow> (\<exists>j \<le> n. f (k + j) = Some r \<and> (\<forall>i < j. f (k + i) = None))"
proof (induction n arbitrary: k)
  case 0
  then show ?case by simp
next
  case (Suc n)
  show ?case
  proof (cases "f k")
    case None
    have "(\<exists>j \<le> Suc n. f (k + j) = Some r \<and> (\<forall>i < j. f (k + i) = None))
          \<longleftrightarrow> (\<exists>j \<le> n. f (Suc k + j) = Some r \<and> (\<forall>i < j. f (Suc k + i) = None))"
    proof
      assume "\<exists>j \<le> Suc n. f (k + j) = Some r \<and> (\<forall>i < j. f (k + i) = None)"
      then obtain j where j: "j \<le> Suc n" "f (k + j) = Some r" "\<forall>i < j. f (k + i) = None" by blast
      obtain j' where j': "j = Suc j'" using j(2) None by (cases j) simp_all
      have "\<forall>i < j'. f (Suc k + i) = None"
      proof (intro allI impI)
        fix i assume "i < j'"
        then have "Suc i < j" using j' by simp
        then have "f (k + Suc i) = None" using j(3) by blast
        then show "f (Suc k + i) = None" by simp
      qed
      then show "\<exists>j \<le> n. f (Suc k + j) = Some r \<and> (\<forall>i < j. f (Suc k + i) = None)"
        using j(1,2) j' by (intro exI[of _ j']) simp
    next
      assume "\<exists>j \<le> n. f (Suc k + j) = Some r \<and> (\<forall>i < j. f (Suc k + i) = None)"
      then obtain j where j: "j \<le> n" "f (Suc k + j) = Some r" "\<forall>i < j. f (Suc k + i) = None" by blast
      have "\<forall>i < Suc j. f (k + i) = None"
      proof (intro allI impI)
        fix i assume i: "i < Suc j"
        show "f (k + i) = None"
        proof (cases i)
          case 0
          then show ?thesis using None by simp
        next
          case (Suc i')
          then have "i' < j" using i by simp
          then have "f (Suc k + i') = None" using j(3) by blast
          then show ?thesis using Suc by simp
        qed
      qed
      then show "\<exists>j \<le> Suc n. f (k + j) = Some r \<and> (\<forall>i < j. f (k + i) = None)"
        using j(1,2) by (intro exI[of _ "Suc j"]) simp
    qed
    then show ?thesis using None Suc[of "Suc k"] by simp
  next
    case (Some a)
    have "(\<exists>j \<le> Suc n. f (k + j) = Some r \<and> (\<forall>i < j. f (k + i) = None)) \<longleftrightarrow> a = r"
    proof
      assume "\<exists>j \<le> Suc n. f (k + j) = Some r \<and> (\<forall>i < j. f (k + i) = None)"
      then obtain j where j: "f (k + j) = Some r" "\<forall>i < j. f (k + i) = None" by blast
      have "j = 0"
      proof (rule ccontr)
        assume "j \<noteq> 0"
        then have "f (k + 0) = None" using j(2) by blast
        then show False using Some by simp
      qed
      then show "a = r" using j(1) Some by simp
    next
      assume "a = r"
      then show "\<exists>j \<le> Suc n. f (k + j) = Some r \<and> (\<forall>i < j. f (k + i) = None)"
        using Some by (intro exI[of _ 0]) simp
    qed
    then show ?thesis using Some by simp
  qed
qed

lemma lstar_cls_first_up:
  "lstar (cls p) s x c = first_up (\<lambda>k. c (x\<lparr>pos := pos x + k\<rparr>)) 0 (run p s (pos x))"
proof (cases "first_up (\<lambda>k. c (x\<lparr>pos := pos x + k\<rparr>)) 0 (run p s (pos x))")
  case None
  then have "lstar (cls p) s x c = None" by (simp add: first_up_None_iff lstar_cls_None_iff)
  with None show ?thesis by simp
next
  case (Some r)
  then have "lstar (cls p) s x c = Some r" by (simp add: first_up_Some_iff lstar_cls_Some_iff)
  with Some show ?thesis by simp
qed

lemma first_down_last: "(\<And>j. j < n \<Longrightarrow> f j = None) \<Longrightarrow> first_down f n = f n"
proof (cases "f n")
  case None
  assume "\<And>j. j < n \<Longrightarrow> f j = None"
  then have "\<forall>k \<le> n. f k = None" using None by (metis le_neq_implies_less)
  then show ?thesis using None by (simp add: first_down_None_iff)
next
  case (Some r)
  then have "first_down f n = Some r" unfolding first_down_Some_iff by (intro exI[of _ n]) auto
  with Some show ?thesis by simp
qed

lemma first_up_shift: "first_up f (Suc k) n = first_up (\<lambda>i. f (Suc i)) k n"
  by (induction n arbitrary: k) (simp_all split: option.splits)

lemma cls_case:
  "cls p s x c =
     (case drop (pos x) s of
        [] \<Rightarrow> None
      | ch # u \<Rightarrow> if p ch then c (x\<lparr>pos := Suc (pos x)\<rparr>) else None)"
proof (cases "pos x < length s")
  case True
  then have "drop (pos x) s = s ! pos x # drop (Suc (pos x)) s" by (simp add: Cons_nth_drop_Suc)
  then show ?thesis using True by (simp add: cls_def)
next
  case False
  then show ?thesis by (simp add: cls_def)
qed

lemma drop_Suc_tl: "drop (Suc n) s = tl (drop n s)"
  by (simp add: drop_Suc tl_drop)

lemma take_length_append: "take (length xs) (xs @ ys) = xs"
  by simp

lemma take_close_tag_iff:
  "take (length name + 3) u = close_tag name \<longleftrightarrow> (\<exists>rest. u = 60 # 47 # name @ 62 # rest)"
proof
  assume a: "take (length name + 3) u = close_tag name"
  have "u = take (length name + 3) u @ drop (length name + 3) u" by simp
  then have "u = 60 # 47 # name @ 62 # drop (length name + 3) u"
    unfolding a by (simp add: close_tag_def)
  then show "\<exists>rest. u = 60 # 47 # name @ 62 # rest" by blast
next
  assume "\<exists>rest. u = 60 # 47 # name @ 62 # rest"
  then obtain rest where u: "u = (60 # 47 # name @ [62]) @ rest" by auto
  have t: "take (length (60 # 47 # name @ [62])) u = 60 # 47 # name @ [62]"
    unfolding u by (rule take_length_append)
  have l: "length (60 # 47 # name @ [62]) = length name + 3" by simp
  from t[unfolded l] show "take (length name + 3) u = close_tag name"
    by (simp only: close_tag_def)
qed

lemma drop_Cons_nth: "drop i s = c # zs \<Longrightarrow> i < length s \<and> s ! i = c"
  by (metis drop_eq_Nil2 hd_drop_conv_nth leI list.distinct(1) list.sel(1))

lemma drop_append_more: "drop i s = xs @ zs \<Longrightarrow> drop (i + length xs) s = zs"
  by (metis add.commute append_eq_conv_conj drop_drop)

lemma lit_case:
  "lit ch s x c =
     (case drop (pos x) s of
        [] \<Rightarrow> None
      | a # u \<Rightarrow> if a = of_char ch then c (x\<lparr>pos := Suc (pos x)\<rparr>) else None)"
  by (simp add: lit_def cls_case)

lemma lit_drop: "drop (pos x) s = of_char ch # zs \<Longrightarrow> lit ch s x k = k (x\<lparr>pos := Suc (pos x)\<rparr>)"
  by (simp add: lit_case)

lemma lit_SomeD:
  "lit ch s x c = Some r \<Longrightarrow>
   \<exists>u. drop (pos x) s = of_char ch # u \<and> c (x\<lparr>pos := Suc (pos x)\<rparr>) = Some r"
  by (auto simp: lit_case split: list.splits if_splits)

lemma backref_drop:
  "caps x n = Some t \<Longrightarrow> drop (pos x) s = t @ zs \<Longrightarrow>
   backref n s x k = k (x\<lparr>pos := pos x + length t\<rparr>)"
  by (simp add: backref_def)

lemma backref_SomeD:
  "backref n s x c = Some r \<Longrightarrow> caps x n = Some t \<Longrightarrow>
   take (length t) (drop (pos x) s) = t \<and> c (x\<lparr>pos := pos x + length t\<rparr>) = Some r"
  by (auto simp: backref_def split: if_splits)

lemma closing_pat_at:
  assumes c1: "caps y 1 = Some name"
  shows "closing_pat s y Some =
     (if take (length name + 3) (drop (pos y) s) = close_tag name
      then Some (y\<lparr>pos := pos y + length name + 3\<rparr>) else None)"
proof (cases "take (length name + 3) (drop (pos y) s) = close_tag name")
  case True
  then obtain rest where d: "drop (pos y) s = 60 # 47 # name @ 62 # rest"
    unfolding take_close_tag_iff by blast
  have d1: "drop (pos (y\<lparr>pos := Suc (pos y)\<rparr>)) s = 47 # name @ 62 # rest"
    using drop_append_more[of "pos y" s "[60]"] d by simp
  have d2: "drop (pos (y\<lparr>pos := Suc (Suc (pos y))\<rparr>)) s = name @ 62 # rest"
    using drop_append_more[of "pos y" s "[60, 47]"] d by simp
  have d3: "drop (pos (y\<lparr>pos := Suc (Suc (pos y)) + length name\<rparr>)) s = 62 # rest"
    using drop_append_more[of "pos y" s "60 # 47 # name"] d by simp
  have cy: "caps (y\<lparr>pos := Suc (Suc (pos y))\<rparr>) 1 = Some name" using c1 by simp
  have s4: "lit CHR ''>'' s (y\<lparr>pos := Suc (Suc (pos y)) + length name\<rparr>) Some
            = Some (y\<lparr>pos := Suc (Suc (Suc (pos y))) + length name\<rparr>)"
    using lit_drop[of "y\<lparr>pos := Suc (Suc (pos y)) + length name\<rparr>" s "CHR ''>''" rest Some] d3 by simp
  have s3: "backref 1 s (y\<lparr>pos := Suc (Suc (pos y))\<rparr>) (\<lambda>z. lit CHR ''>'' s z Some)
            = Some (y\<lparr>pos := Suc (Suc (Suc (pos y))) + length name\<rparr>)"
    using backref_drop[OF cy d2, of "\<lambda>z. lit CHR ''>'' s z Some"] s4 by simp
  have s2: "lit CHR ''/'' s (y\<lparr>pos := Suc (pos y)\<rparr>) (\<lambda>z. backref 1 s z (\<lambda>z. lit CHR ''>'' s z Some))
            = Some (y\<lparr>pos := Suc (Suc (Suc (pos y))) + length name\<rparr>)"
    using lit_drop[of "y\<lparr>pos := Suc (pos y)\<rparr>" s "CHR ''/''" "name @ 62 # rest"] d1 s3 by simp
  have s1: "lit CHR ''<'' s y (\<lambda>z. lit CHR ''/'' s z (\<lambda>z. backref 1 s z (\<lambda>z. lit CHR ''>'' s z Some)))
            = Some (y\<lparr>pos := Suc (Suc (Suc (pos y))) + length name\<rparr>)"
    using lit_drop[of y s "CHR ''<''" "47 # name @ 62 # rest"] d s2 by simp
  then show ?thesis using True by (simp add: closing_pat_def sq_def)
next
  case False
  have "closing_pat s y Some = None"
  proof (rule ccontr)
    assume "closing_pat s y Some \<noteq> None"
    then obtain r where
      r: "lit CHR ''<'' s y (\<lambda>z. lit CHR ''/'' s z (\<lambda>z. backref 1 s z (\<lambda>z. lit CHR ''>'' s z Some))) = Some r"
      by (auto simp: closing_pat_def sq_def)
    from lit_SomeD[OF r] obtain u1 where u: "drop (pos y) s = 60 # u1"
      and r1: "lit CHR ''/'' s (y\<lparr>pos := Suc (pos y)\<rparr>) (\<lambda>z. backref 1 s z (\<lambda>z. lit CHR ''>'' s z Some)) = Some r"
      by auto
    from lit_SomeD[OF r1] obtain u2 where u1: "drop (Suc (pos y)) s = 47 # u2"
      and r2: "backref 1 s (y\<lparr>pos := Suc (Suc (pos y))\<rparr>) (\<lambda>z. lit CHR ''>'' s z Some) = Some r"
      by auto
    have cy: "caps (y\<lparr>pos := Suc (Suc (pos y))\<rparr>) 1 = Some name" using c1 by simp
    from backref_SomeD[OF r2 cy]
    have t: "take (length name) (drop (Suc (Suc (pos y))) s) = name"
      and r3: "lit CHR ''>'' s (y\<lparr>pos := Suc (Suc (pos y)) + length name\<rparr>) Some = Some r"
      by simp_all
    from lit_SomeD[OF r3] obtain u3 where u3: "drop (Suc (Suc (pos y)) + length name) s = 62 # u3"
      by auto
    have e1: "drop (Suc (pos y)) s = u1" using u by (simp add: drop_Suc_tl)
    have e2: "drop (Suc (Suc (pos y))) s = u2" using u1 by (simp add: drop_Suc_tl)
    have "drop (Suc (Suc (pos y)) + length name) s = drop (length name) (drop (Suc (Suc (pos y))) s)"
      by (simp add: add.commute)
    then have e3: "drop (length name) u2 = 62 # u3" using u3 e2 by simp
    have "u2 = take (length name) u2 @ drop (length name) u2" by simp
    then have "u2 = name @ 62 # u3" using t e2 e3 by simp
    then have "drop (pos y) s = 60 # 47 # name @ 62 # u3" using u u1 e1 by simp
    then have "take (length name + 3) (drop (pos y) s) = close_tag name"
      unfolding take_close_tag_iff by blast
    then show False using False by simp
  qed
  then show ?thesis using False by simp
qed

lemma plus_cls_first_down:
  "plus (cls p) s x c =
     (if run p s (pos x) = 0 then None
      else first_down (\<lambda>k. c (x\<lparr>pos := pos x + Suc k\<rparr>)) (run p s (pos x) - 1))"
proof (cases "pos x < length s \<and> p (s ! pos x)")
  case True
  then have r: "run p s (pos x) = Suc (run p s (Suc (pos x)))" by (simp add: run_step)
  have "star (cls p) s (x\<lparr>pos := Suc (pos x)\<rparr>) c
        = first_down (\<lambda>k. c (x\<lparr>pos := Suc (pos x) + k\<rparr>)) (run p s (Suc (pos x)))"
    using star_cls_first_down[of p s "x\<lparr>pos := Suc (pos x)\<rparr>" c] by simp
  then show ?thesis using True by (simp add: plus_def sq_def cls_def r)
next
  case False
  then have "run p s (pos x) = 0" by (rule run_stop)
  then show ?thesis using False by (auto simp: plus_def sq_def cls_def)
qed

lemma content_upto_prefix: "content_upto cl body = Some inner \<Longrightarrow> take (length inner) body = inner"
  by (induction body arbitrary: inner) (auto split: if_splits)

lemma first_up_content:
  "first_up (\<lambda>k. if take (length cl) (drop k body) = cl then Some (f k) else None) 0
      (length (takeWhile (\<lambda>c. \<not> is_line_terminator c) body))
   = map_option (\<lambda>inner. f (length inner)) (content_upto cl body)"
proof (induction body arbitrary: f)
  case Nil
  then show ?case by auto
next
  case (Cons c cs)
  show ?case
  proof (cases "take (length cl) (c # cs) = cl")
    case True
    then show ?thesis by (cases "is_line_terminator c") simp_all
  next
    case False
    show ?thesis
    proof (cases "is_line_terminator c")
      case True
      then show ?thesis using False by simp
    next
      case nlt: False
      have "first_up (\<lambda>k. if take (length cl) (drop k (c # cs)) = cl then Some (f k) else None) (Suc 0)
              (length (takeWhile (\<lambda>c. \<not> is_line_terminator c) cs))
            = first_up (\<lambda>k. if take (length cl) (drop k cs) = cl then Some (f (Suc k)) else None) 0
              (length (takeWhile (\<lambda>c. \<not> is_line_terminator c) cs))"
        by (simp add: first_up_shift)
      also have "\<dots> = map_option (\<lambda>inner. f (Suc (length inner))) (content_upto cl cs)"
        by (rule Cons.IH)
      finally show ?thesis using False nlt by (simp add: option.map_comp comp_def)
    qed
  qed
qed

lemma content_at:
  assumes c1: "caps x 1 = Some name" and g: "gi \<noteq> 1"
  shows "grp gi (lstar dot) s x (\<lambda>y. closing_pat s y Some)
     = map_option (\<lambda>inner. x\<lparr>pos := pos x + length inner + length name + 3,
                              caps := (caps x)(gi \<mapsto> inner)\<rparr>)
         (content_upto (close_tag name) (drop (pos x) s))"
proof -
  let ?body = "drop (pos x) s"
  let ?cl = "close_tag name"
  let ?f = "\<lambda>k. x\<lparr>pos := pos x + k + length name + 3, caps := (caps x)(gi \<mapsto> take k ?body)\<rparr>"
  have l: "length ?cl = length name + 3" by (simp add: close_tag_def)
  have K: "closing_pat s (x\<lparr>pos := pos x + k, caps := (caps x)(gi \<mapsto> take k ?body)\<rparr>) Some
           = (if take (length ?cl) (drop k ?body) = ?cl then Some (?f k) else None)" for k
  proof -
    have c: "caps (x\<lparr>pos := pos x + k, caps := (caps x)(gi \<mapsto> take k ?body)\<rparr>) 1 = Some name"
      using c1 g by simp
    have d: "drop (pos x + k) s = drop k ?body" by (simp add: add.commute)
    show ?thesis unfolding closing_pat_at[OF c] l by (simp add: d)
  qed
  have "grp gi (lstar dot) s x (\<lambda>y. closing_pat s y Some)
        = first_up (\<lambda>k. closing_pat s (x\<lparr>pos := pos x + k, caps := (caps x)(gi \<mapsto> take k ?body)\<rparr>) Some)
            0 (run (\<lambda>c. \<not> is_line_terminator c) s (pos x))"
    by (simp add: grp_def dot_def lstar_cls_first_up)
  also have "\<dots> = first_up (\<lambda>k. if take (length ?cl) (drop k ?body) = ?cl then Some (?f k) else None)
            0 (length (takeWhile (\<lambda>c. \<not> is_line_terminator c) ?body))"
    by (simp only: K run_def)
  also have "\<dots> = map_option (\<lambda>inner. ?f (length inner)) (content_upto ?cl ?body)"
    by (rule first_up_content)
  also have "\<dots> = map_option (\<lambda>inner. x\<lparr>pos := pos x + length inner + length name + 3,
                              caps := (caps x)(gi \<mapsto> inner)\<rparr>) (content_upto ?cl ?body)"
    by (rule option.map_cong) (simp_all add: content_upto_prefix)
  finally show ?thesis .
qed

lemma attrs_at:
  "(if b then grp 2 (star (not_chr CHR ''>'')) else star (not_chr CHR ''>'')) s x (\<lambda>y. lit CHR ''>'' s y c)
   = (case dropWhile (\<lambda>c. c \<noteq> 62) (drop (pos x) s) of
        [] \<Rightarrow> None
      | gt # body \<Rightarrow>
          c (x\<lparr>pos := pos x + length (takeWhile (\<lambda>c. c \<noteq> 62) (drop (pos x) s)) + 1,
               caps := (if b then (caps x)(2 \<mapsto> takeWhile (\<lambda>c. c \<noteq> 62) (drop (pos x) s))
                        else caps x)\<rparr>))"
proof -
  let ?p = "\<lambda>c. c \<noteq> (62::nat)"
  let ?r = "drop (pos x) s"
  let ?n = "run ?p s (pos x)"
  let ?cp = "if b then (caps x)(2 \<mapsto> takeWhile ?p ?r) else caps x"
  let ?K = "\<lambda>k. lit CHR ''>'' s (x\<lparr>pos := pos x + k,
                 caps := (if b then (caps x)(2 \<mapsto> take k ?r) else caps x)\<rparr>) c"
  have n: "?n = length (takeWhile ?p ?r)" by (simp add: run_def)
  have W: "(if b then grp 2 (star (not_chr CHR ''>'')) else star (not_chr CHR ''>'')) s x
             (\<lambda>y. lit CHR ''>'' s y c) = first_down ?K ?n"
    by (cases b) (simp_all add: grp_def not_chr_def star_cls_first_down)
  have miss: "?K j = None" if "j < ?n" for j
  proof -
    have "s ! (pos x + j) \<noteq> 62" using run_all[OF that] .
    then show ?thesis by (simp add: lit_def cls_def)
  qed
  have fd: "first_down ?K ?n = ?K ?n" using miss by (rule first_down_last)
  have dd: "drop (pos x + ?n) s = dropWhile ?p ?r"
    unfolding n by (simp add: dropWhile_eq_drop add.commute)
  have tt: "take ?n ?r = takeWhile ?p ?r"
    unfolding n by (simp add: takeWhile_eq_take[symmetric])
  have "?K ?n = (case dropWhile ?p ?r of [] \<Rightarrow> None
      | gt # body \<Rightarrow> c (x\<lparr>pos := pos x + ?n + 1, caps := ?cp\<rparr>))"
  proof (cases "dropWhile ?p ?r")
    case Nil
    then have "drop (pos (x\<lparr>pos := pos x + ?n,
                 caps := (if b then (caps x)(2 \<mapsto> take ?n ?r) else caps x)\<rparr>)) s = []"
      using dd by simp
    then have "?K ?n = None" by (subst lit_case) (simp only: list.case)
    then show ?thesis unfolding Nil by simp
  next
    case (Cons gt body)
    have "gt = 62" using hd_dropWhile[of ?p ?r] Cons by auto
    then have "drop (pos (x\<lparr>pos := pos x + ?n,
                 caps := (if b then (caps x)(2 \<mapsto> take ?n ?r) else caps x)\<rparr>)) s
               = of_char CHR ''>'' # body"
      using dd Cons by simp
    from lit_drop[OF this]
    have "?K ?n = c (x\<lparr>pos := pos x + ?n,
                 caps := (if b then (caps x)(2 \<mapsto> take ?n ?r) else caps x),
                 pos := Suc (pos x + ?n)\<rparr>)"
      by simp
    also have "\<dots> = c (x\<lparr>pos := pos x + ?n + 1, caps := ?cp\<rparr>)"
      unfolding tt by (cases x) simp
    finally show ?thesis unfolding Cons by simp
  qed
  then show ?thesis unfolding W fd unfolding n .
qed

lemma tail_at:
  assumes c1: "caps x 1 = Some name" and g: "gi \<noteq> 1"
  shows "(if b then grp 2 (star (not_chr CHR ''>'')) else star (not_chr CHR ''>'')) s x
           (\<lambda>y. lit CHR ''>'' s y (\<lambda>y. grp gi (lstar dot) s y (\<lambda>y. closing_pat s y Some)))
     = map_option (\<lambda>(a, inner).
          x\<lparr>pos := pos x + length a + length inner + length name + 4,
            caps := (if b then (caps x)(2 \<mapsto> a) else caps x)(gi \<mapsto> inner)\<rparr>)
         (element_named name (drop (pos x) s))"
proof (cases "dropWhile (\<lambda>c. c \<noteq> 62) (drop (pos x) s)")
  case Nil
  show ?thesis unfolding attrs_at element_named_def Nil by simp
next
  case (Cons gt body)
  let ?a = "takeWhile (\<lambda>c. c \<noteq> 62) (drop (pos x) s)"
  let ?x3 = "x\<lparr>pos := pos x + length ?a + 1, caps := (if b then (caps x)(2 \<mapsto> ?a) else caps x)\<rparr>"
  have "drop (pos x + length ?a) s = dropWhile (\<lambda>c. c \<noteq> 62) (drop (pos x) s)"
    by (simp add: dropWhile_eq_drop add.commute)
  then have "drop (pos x + length ?a) s = [gt] @ body" using Cons by simp
  from drop_append_more[OF this] have d: "drop (pos ?x3) s = body" by simp
  have c3: "caps ?x3 1 = Some name" using c1 by simp
  have "grp gi (lstar dot) s ?x3 (\<lambda>y. closing_pat s y Some)
     = map_option (\<lambda>inner. ?x3\<lparr>pos := pos ?x3 + length inner + length name + 3,
                              caps := (caps ?x3)(gi \<mapsto> inner)\<rparr>)
         (content_upto (close_tag name) body)"
    using content_at[OF c3 g, of s] unfolding d .
  also have "\<dots> = map_option (\<lambda>(a, inner).
          x\<lparr>pos := pos x + length a + length inner + length name + 4,
            caps := (if b then (caps x)(2 \<mapsto> a) else caps x)(gi \<mapsto> inner)\<rparr>)
         (map_option (\<lambda>inner. (?a, inner)) (content_upto (close_tag name) body))"
    unfolding option.map_comp comp_def prod.case by (rule option.map_cong) simp_all
  finally show ?thesis
    unfolding attrs_at Cons element_named_def by (simp only: list.case)
qed

lemma first_down_cong: "(\<And>k. k \<le> n \<Longrightarrow> f k = g k) \<Longrightarrow> first_down f n = first_down g n"
proof (induction n)
  case 0
  then show ?case by simp
next
  case (Suc n)
  have "first_down f n = first_down g n" using Suc.prems by (intro Suc.IH) simp
  moreover have "f (Suc n) = g (Suc n)" using Suc.prems by simp
  ultimately show ?case by (simp split: option.splits)
qed

lemma first_down_try_names:
  "first_down (\<lambda>k. map_option F
        (case element_named (take (Suc k) v) (drop (Suc k) v) of
           None \<Rightarrow> None
         | Some (a, inner) \<Rightarrow> Some (take (Suc k) v, a, inner))) n
   = map_option F (try_names (Suc n) v)"
proof (induction n)
  case 0
  show ?case
    by (cases "element_named (take (Suc 0) v) (drop (Suc 0) v)") (auto simp del: take_Suc_Cons)
next
  case (Suc n)
  show ?case
  proof (cases "element_named (take (Suc (Suc n)) v) (drop (Suc (Suc n)) v)")
    case None
    have "try_names (Suc (Suc n)) v = try_names (Suc n) v"
      by (subst try_names.simps) (simp only: None option.case)
    then show ?thesis using Suc None by (simp del: try_names.simps)
  next
    case (Some p)
    obtain a inner where p: "p = (a, inner)" by (cases p)
    have "try_names (Suc (Suc n)) v = Some (take (Suc (Suc n)) v, a, inner)"
      by (subst try_names.simps) (simp only: Some p option.case prod.case)
    then show ?thesis using Some p by (simp del: try_names.simps)
  qed
qed

lemma element_pat_at:
  assumes g: "gi \<noteq> 1"
  shows "element_pat b gi s (start_at i) Some = map_option (element_state b gi i) (element_start (drop i s))"
proof (cases "drop i s")
  case Nil
  have "lit CHR ''<'' s (start_at i) k = None" for k
    by (subst lit_case) (simp add: start_at_def Nil)
  then show ?thesis by (simp add: element_pat_def sq_def element_start_def Nil)
next
  case (Cons c v)
  define W where "W = (if b then grp 2 (star (not_chr CHR ''>'')) else star (not_chr CHR ''>''))"
  define T where "T = (\<lambda>y. W s y
           (\<lambda>y. lit CHR ''>'' s y (\<lambda>y. grp gi (lstar dot) s y (\<lambda>y. closing_pat s y Some))))"
  have ep: "element_pat b gi s (start_at i) Some
      = lit CHR ''<'' s (start_at i) (\<lambda>y. grp 1 (plus (cls is_word)) s y T)"
    unfolding element_pat_def sq_def T_def W_def ..
  show ?thesis
  proof (cases "c = 60")
    case False
    have "lit CHR ''<'' s (start_at i) k = None" for k
      using False by (subst lit_case) (simp add: start_at_def Cons)
    then show ?thesis using False by (simp add: ep element_start_def Cons)
  next
    case True
    define x1 where "x1 = \<lparr>pos = Suc i, caps = (\<lambda>n. None)\<rparr>"
    let ?n = "length (takeWhile is_word v)"
    have v: "drop (Suc i) s = v" using Cons by (simp add: drop_Suc_tl)
    have rn: "run is_word s (pos x1) = ?n" by (simp add: run_def v x1_def)
    have "lit CHR ''<'' s (start_at i) k = k x1" for k
      using True by (subst lit_case) (simp add: start_at_def Cons x1_def)
    then have 1: "element_pat b gi s (start_at i) Some = grp 1 (plus (cls is_word)) s x1 T"
      unfolding ep .
    have 2: "grp 1 (plus (cls is_word)) s x1 T =
        (if ?n = 0 then None
         else first_down (\<lambda>k. T \<lparr>pos = Suc i + Suc k, caps = (\<lambda>n. None)(1 \<mapsto> take (Suc k) v)\<rparr>) (?n - 1))"
      unfolding grp_def plus_cls_first_down rn by (simp add: x1_def v)
    have es: "element_start (drop i s) = try_names ?n v"
      using True by (simp add: element_start_def Cons)
    show ?thesis
    proof (cases "?n = 0")
      case z: True
      show ?thesis unfolding 1 2 es using z by simp
    next
      case nz: False
      then obtain m where m: "?n = Suc m" by (cases ?n) auto
      have Tk: "T \<lparr>pos = Suc i + Suc k, caps = (\<lambda>n. None)(1 \<mapsto> take (Suc k) v)\<rparr>
          = map_option (element_state b gi i)
              (case element_named (take (Suc k) v) (drop (Suc k) v) of
                 None \<Rightarrow> None
               | Some (a, inner) \<Rightarrow> Some (take (Suc k) v, a, inner))" if "k \<le> m" for k
      proof -
        define name where "name = take (Suc k) v"
        define x2 where "x2 = \<lparr>pos = Suc i + Suc k, caps = (\<lambda>n. None)(1 \<mapsto> name)\<rparr>"
        have c: "caps x2 1 = Some name" by (simp add: x2_def)
        have "Suc k \<le> length (takeWhile is_word v)" using that m by simp
        also have "\<dots> \<le> length v" by (rule length_takeWhile_le)
        finally have len: "length name = Suc k" by (simp add: name_def)
        have "drop (Suc k + Suc i) s = drop (Suc k) (drop (Suc i) s)" by (simp only: drop_drop)
        then have d: "drop (pos x2) s = drop (Suc k) v" using v by (simp add: x2_def add.commute)
        have "T x2 = map_option (\<lambda>(a, inner).
            x2\<lparr>pos := pos x2 + length a + length inner + length name + 4,
              caps := (if b then (caps x2)(2 \<mapsto> a) else caps x2)(gi \<mapsto> inner)\<rparr>)
           (element_named name (drop (Suc k) v))"
          unfolding T_def W_def tail_at[OF c g] d ..
        also have "\<dots> = map_option (element_state b gi i)
              (case element_named name (drop (Suc k) v) of
                 None \<Rightarrow> None
               | Some (a, inner) \<Rightarrow> Some (name, a, inner))"
        proof (cases "element_named name (drop (Suc k) v)")
          case None
          then show ?thesis by simp
        next
          case (Some p)
          obtain a inner where p: "p = (a, inner)" by (cases p)
          show ?thesis unfolding Some p
            by (cases b) (simp_all add: element_state_def x2_def len)
        qed
        finally show ?thesis unfolding x2_def name_def .
      qed
      have "first_down (\<lambda>k. T \<lparr>pos = Suc i + Suc k, caps = (\<lambda>n. None)(1 \<mapsto> take (Suc k) v)\<rparr>) m
          = first_down (\<lambda>k. map_option (element_state b gi i)
              (case element_named (take (Suc k) v) (drop (Suc k) v) of
                 None \<Rightarrow> None
               | Some (a, inner) \<Rightarrow> Some (take (Suc k) v, a, inner))) m"
        using Tk by (rule first_down_cong)
      also have "\<dots> = map_option (element_state b gi i) (try_names (Suc m) v)"
        by (rule first_down_try_names)
      finally show ?thesis unfolding 1 2 es using m by simp
    qed
  qed
qed

lemma starts_with_tag_rx_iff: "regex_test starts_with_tag_rx s \<longleftrightarrow> starts_with_tag s"
proof -
  define T where "T = (\<lambda>y. grp 2 (star (not_chr CHR ''>'')) s y (\<lambda>y. lit CHR ''>'' s y Some))"
  have T: "T y \<noteq> None \<longleftrightarrow> 62 \<in> set (drop (pos y) s)" for y
  proof -
    have "T y = (case dropWhile (\<lambda>c. c \<noteq> 62) (drop (pos y) s) of
        [] \<Rightarrow> None
      | gt # body \<Rightarrow>
          Some (y\<lparr>pos := pos y + length (takeWhile (\<lambda>c. c \<noteq> 62) (drop (pos y) s)) + 1,
               caps := (if True then (caps y)(2 \<mapsto> takeWhile (\<lambda>c. c \<noteq> 62) (drop (pos y) s))
                        else caps y)\<rparr>))"
      unfolding T_def using attrs_at[of True s y Some] by simp
    moreover have "dropWhile (\<lambda>c. c \<noteq> 62) (drop (pos y) s) = [] \<longleftrightarrow> 62 \<notin> set (drop (pos y) s)"
      by (auto simp: dropWhile_eq_Nil_conv)
    ultimately show ?thesis by (cases "dropWhile (\<lambda>c. c \<noteq> 62) (drop (pos y) s)") auto
  qed
  have other: "starts_with_tag_rx s (start_at j) Some = None" if "j \<noteq> 0" for j
    using that by (simp add: starts_with_tag_rx_def sq_def bol_def start_at_def)
  have at0: "starts_with_tag_rx s (start_at 0) Some
      = lit CHR ''<'' s (start_at 0) (\<lambda>y. grp 1 (plus (cls is_word)) s y T)"
    by (simp add: starts_with_tag_rx_def sq_def bol_def start_at_def T_def)
  have "regex_test starts_with_tag_rx s \<longleftrightarrow> starts_with_tag_rx s (start_at 0) Some \<noteq> None"
  proof -
    have "exec_from starts_with_tag_rx s 0 = None \<longleftrightarrow> starts_with_tag_rx s (start_at 0) Some = None"
      unfolding exec_from_None_iff using other by (metis le0)
    then show ?thesis by (simp add: regex_test_def)
  qed
  also have "\<dots> \<longleftrightarrow> starts_with_tag s"
  proof (cases s)
    case Nil
    have "lit CHR ''<'' s (start_at 0) k = None" for k
      by (subst lit_case) (simp add: start_at_def Nil)
    then show ?thesis unfolding at0 by (simp add: starts_with_tag_def Nil)
  next
    case (Cons c v)
    show ?thesis
    proof (cases "c = 60")
      case False
      have "lit CHR ''<'' s (start_at 0) k = None" for k
        using False by (subst lit_case) (simp add: start_at_def Cons)
      then show ?thesis unfolding at0 using False by (simp add: starts_with_tag_def Cons)
    next
      case True
      define x1 where "x1 = \<lparr>pos = Suc 0, caps = (\<lambda>n. None)\<rparr>"
      let ?n = "length (takeWhile is_word v)"
      have rn: "run is_word s (pos x1) = ?n" by (simp add: run_def Cons x1_def)
      have "lit CHR ''<'' s (start_at 0) k = k x1" for k
        using True by (subst lit_case) (simp add: start_at_def Cons x1_def)
      then have 1: "starts_with_tag_rx s (start_at 0) Some = grp 1 (plus (cls is_word)) s x1 T"
        unfolding at0 .
      have 2: "grp 1 (plus (cls is_word)) s x1 T =
        (if ?n = 0 then None
         else first_down (\<lambda>k. T \<lparr>pos = Suc (Suc k), caps = (\<lambda>n. None)(1 \<mapsto> take (Suc k) v)\<rparr>) (?n - 1))"
        unfolding grp_def plus_cls_first_down rn by (simp add: x1_def Cons)
      show ?thesis
      proof (cases "?n = 0")
        case z: True
        show ?thesis unfolding 1 2 using z by (simp add: starts_with_tag_def Cons)
      next
        case nz: False
        then obtain w v' where v: "v = w # v'" and w: "is_word w" by (cases v) (auto split: if_splits)
        have "w \<noteq> 62" using w by (auto simp: is_word_def is_digit_def)
        have same: "62 \<in> set (drop (Suc k) v) \<longleftrightarrow> 62 \<in> set v" if "k < ?n" for k
        proof
          assume "62 \<in> set (drop (Suc k) v)"
          then show "62 \<in> set v" by (rule in_set_dropD)
        next
          assume a: "62 \<in> set v"
          have "set v = set (take (Suc k) v) \<union> set (drop (Suc k) v)"
            by (metis append_take_drop_id set_append)
          moreover have "62 \<notin> set (take (Suc k) v)"
          proof
            assume "62 \<in> set (take (Suc k) v)"
            moreover have "take (Suc k) v = take (Suc k) (takeWhile is_word v)"
              using that by (metis Suc_leI append_take_drop_id takeWhile_dropWhile_id take_append
                  diff_is_0_eq take_0 append_Nil2)
            ultimately have "62 \<in> set (takeWhile is_word v)" by (metis in_set_takeD)
            then have "is_word 62" by (rule set_takeWhileD[THEN conjunct2])
            then show False by (simp add: is_word_def is_digit_def)
          qed
          ultimately show "62 \<in> set (drop (Suc k) v)" using a by blast
        qed
        have Tk: "T \<lparr>pos = Suc (Suc k), caps = (\<lambda>n. None)(1 \<mapsto> take (Suc k) v)\<rparr> \<noteq> None
                  \<longleftrightarrow> 62 \<in> set v" if "k < ?n" for k
          unfolding T using same[OF that] by (simp add: Cons)
        have "first_down (\<lambda>k. T \<lparr>pos = Suc (Suc k), caps = (\<lambda>n. None)(1 \<mapsto> take (Suc k) v)\<rparr>) (?n - 1) \<noteq> None
              \<longleftrightarrow> 62 \<in> set v"
        proof
          assume "first_down (\<lambda>k. T \<lparr>pos = Suc (Suc k), caps = (\<lambda>n. None)(1 \<mapsto> take (Suc k) v)\<rparr>) (?n - 1) \<noteq> None"
          then obtain k where k: "k \<le> ?n - 1"
            "T \<lparr>pos = Suc (Suc k), caps = (\<lambda>n. None)(1 \<mapsto> take (Suc k) v)\<rparr> \<noteq> None"
            unfolding first_down_None_iff by blast
          from k(1) nz have "k < ?n" by linarith
          from Tk[OF this] k(2) show "62 \<in> set v" by (rule iffD1)
        next
          assume "62 \<in> set v"
          moreover have "0 < ?n" using nz by linarith
          ultimately have "T \<lparr>pos = Suc (Suc 0), caps = (\<lambda>n. None)(1 \<mapsto> take (Suc 0) v)\<rparr> \<noteq> None"
            using Tk[of 0] by blast
          then show "first_down (\<lambda>k. T \<lparr>pos = Suc (Suc k), caps = (\<lambda>n. None)(1 \<mapsto> take (Suc k) v)\<rparr>) (?n - 1) \<noteq> None"
            unfolding first_down_None_iff by (metis le0)
        qed
        then show ?thesis unfolding 1 2 using nz True by (simp add: starts_with_tag_def Cons)
      qed
    qed
  qed
  finally show ?thesis .
qed

lemma element_length_pos: "0 < element_length e"
  by (cases e) simp

lemma exec_from_step:
  "i \<le> length s \<Longrightarrow>
   exec_from m s i = (case m s (start_at i) Some of Some y \<Rightarrow> Some (i, y) | None \<Rightarrow> exec_from m s (Suc i))"
  by (subst exec_from.simps) (simp split: option.splits)

lemma exec_from_past: "length s < i \<Longrightarrow> exec_from m s i = None"
  by (subst exec_from.simps) simp

lemma exec_element_rx:
  "i \<le> length s \<Longrightarrow>
   (case exec_from element_rx s i of None \<Rightarrow> None | Some r \<Rightarrow> caps (snd r) 2)
   = map_option (\<lambda>(name, a, inner). inner) (first_element (drop i s))"
proof (induction "drop i s" arbitrary: i)
  case Nil
  then have i: "i = length s" by simp
  have "element_rx s (start_at i) Some = None"
    unfolding element_rx_pat using Nil(1)[symmetric] by (simp add: element_pat_at element_start_def)
  then have "exec_from element_rx s i = None"
    using exec_from_step[of i s element_rx] exec_from_past[of s "Suc i" element_rx] i by simp
  then show ?case using Nil(1)[symmetric] by simp
next
  case (Cons c cs)
  have d: "drop i s = c # cs" using Cons(2) by simp
  have il: "i < length s" using drop_Cons_nth[OF d] by simp
  have ds: "drop (Suc i) s = cs" using d by (simp add: drop_Suc_tl)
  have m: "element_rx s (start_at i) Some
           = map_option (element_state False 2 i) (element_start (c # cs))"
    unfolding element_rx_pat by (simp add: element_pat_at d)
  show ?case
  proof (cases "element_start (c # cs)")
    case None
    have "exec_from element_rx s i = exec_from element_rx s (Suc i)"
      using il exec_from_step[of i s element_rx] by (simp add: m None)
    moreover have "(case exec_from element_rx s (Suc i) of None \<Rightarrow> None | Some r \<Rightarrow> caps (snd r) 2)
       = map_option (\<lambda>(name, a, inner). inner) (first_element (drop (Suc i) s))"
      using il ds by (intro Cons(1)) simp_all
    ultimately show ?thesis by (simp add: d ds None)
  next
    case (Some e)
    obtain name a inner where e: "e = (name, a, inner)" by (cases e)
    have "exec_from element_rx s i = Some (i, element_state False 2 i e)"
      using il exec_from_step[of i s element_rx] by (simp add: m Some)
    then show ?thesis by (simp add: d Some e element_state_def)
  qed
qed

lemma forward_element3_rx: "forward element3_rx"
  unfolding element3_rx_def lit_def not_chr_def dot_def
  by (intro forward_rules)

lemma splice_skip:
  "i < length s \<Longrightarrow> \<forall>r \<in> set rs. Suc i \<le> fst (fst r) \<Longrightarrow>
   splice s i rs = s ! i # splice s (Suc i) rs"
proof (cases rs)
  case Nil
  assume "i < length s"
  then show ?thesis using Nil by (simp add: Cons_nth_drop_Suc)
next
  case (Cons p rest)
  assume il: "i < length s" and a: "\<forall>r \<in> set rs. Suc i \<le> fst (fst r)"
  obtain r rep where p: "p = (r, rep)" by (cases p)
  have le: "Suc i \<le> fst r" using a Cons p by simp
  then obtain k where k: "fst r - i = Suc k" "fst r - Suc i = k" by (cases "fst r - i") auto
  have "take (fst r - i) (drop i s) = s ! i # take (fst r - Suc i) (drop (Suc i) s)"
    unfolding k using il by (simp add: Cons_nth_drop_Suc[symmetric])
  then show ?thesis using Cons p le by simp
qed

lemma replace_elements:
  "i \<le> length s \<Longrightarrow>
   splice s i (map (\<lambda>r. (r, [])) (match_all_from element3_rx s i)) = remove_elements (drop i s)"
proof (induction "drop i s" arbitrary: i rule: remove_elements.induct)
  case 1
  then have i: "i = length s" by simp
  have "element3_rx s (start_at i) Some = None"
    unfolding element3_rx_pat using 1(1)[symmetric] by (simp add: element_pat_at element_start_def)
  then have "exec_from element3_rx s i = None"
    using exec_from_step[of i s element3_rx] exec_from_past[of s "Suc i" element3_rx] i by simp
  then show ?case using 1(1)[symmetric] by (simp add: match_all_from_Nil)
next
  case (2 c cs)
  have d: "drop i s = c # cs" using 2(3) by simp
  have il: "i < length s" and c: "s ! i = c" using drop_Cons_nth[OF d] by simp_all
  have ds: "drop (Suc i) s = cs" using d by (simp add: drop_Suc_tl)
  have m: "element3_rx s (start_at i) Some
           = map_option (element_state True 3 i) (element_start (c # cs))"
    unfolding element3_rx_pat by (simp add: element_pat_at d)
  show ?case
  proof (cases "element_start (c # cs)")
    case None
    have e: "exec_from element3_rx s i = exec_from element3_rx s (Suc i)"
      using il exec_from_step[of i s element3_rx] by (simp add: m None)
    have mm: "match_all_from element3_rx s i = match_all_from element3_rx s (Suc i)"
      by (subst match_all_from.simps, subst (2) match_all_from.simps) (simp only: e)
    have "\<forall>r \<in> set (match_all_from element3_rx s (Suc i)). Suc i \<le> fst r"
      using match_all_starts[of element3_rx s "Suc i"] by blast
    then have "splice s i (map (\<lambda>r. (r, [])) (match_all_from element3_rx s (Suc i)))
        = s ! i # splice s (Suc i) (map (\<lambda>r. (r, [])) (match_all_from element3_rx s (Suc i)))"
      using il by (intro splice_skip) auto
    moreover have "splice s (Suc i) (map (\<lambda>r. (r, [])) (match_all_from element3_rx s (Suc i)))
        = remove_elements (drop (Suc i) s)"
      using il ds None by (intro 2(1)) simp_all
    ultimately show ?thesis by (simp add: mm d ds c None)
  next
    case (Some e)
    let ?y = "element_state True 3 i e"
    have py: "pos ?y = i + element_length e" by (cases e) (simp add: element_state_def)
    have ex: "exec_from element3_rx s i = Some (i, ?y)"
      using il exec_from_step[of i s element3_rx] by (simp add: m Some)
    have le: "pos ?y \<le> length s"
      using exec_from_forward[OF forward_element3_rx ex] by simp
    have gt: "\<not> pos ?y \<le> i" using element_length_pos[of e] py by simp
    have mm: "match_all_from element3_rx s i = (i, ?y) # match_all_from element3_rx s (pos ?y)"
      using match_all_from_Cons[OF ex] gt by simp
    obtain n where n: "element_length e = Suc n" using element_length_pos[of e] by (cases "element_length e") auto
    have "drop (Suc n) (drop i s) = drop n cs" unfolding d by simp
    then have dd: "drop (element_length e - 1) cs = drop (pos ?y) s"
      unfolding py n by (simp add: add.commute)
    have "splice s (pos ?y) (map (\<lambda>r. (r, [])) (match_all_from element3_rx s (pos ?y)))
        = remove_elements (drop (pos ?y) s)"
      using Some dd le by (intro 2(2)) simp_all
    then show ?thesis using dd by (simp add: mm d Some)
  qed
qed

lemma heading_callback_title:
  "heading_callback E raw lvl hid text = Inr (an, rep) \<Longrightarrow> textNoTag text = Inr (title an)"
  by (auto simp: heading_callback_def Let_def split: sum.splits)

section \<open>The anchor tree is the specified reduction\<close>

lemma update_last_conv: "res \<noteq> [] \<Longrightarrow> res[length res - Suc 0 := x] = butlast res @ [x]"
  by (induction res rule: rev_induct) (simp_all add: nth_append)

lemma nth_last_conv: "res \<noteq> [] \<Longrightarrow> res ! (length res - Suc 0) = last res"
  by (simp add: last_conv_nth)

lemma tree_step_spec_place: "tree_step res cur = spec_place res cur"
proof (cases res)
  case Nil
  then show ?thesis by (simp add: tree_step_def top_node_def)
next
  case (Cons n ns)
  have ne: "res \<noteq> []" using Cons by simp
  have "tree_step res cur =
      (if level cur \<le> level (res ! 0) then res @ [top_node cur]
       else butlast res @ [push_child (last res) cur])"
    using ne by (simp add: tree_step_def update_last_conv nth_last_conv)
  then show ?thesis using Cons by (simp add: top_node_def push_child_def)
qed

lemma foldl_tree_step: "foldl tree_step forest list = spec_forest_acc forest list"
  by (induction list arbitrary: forest) (simp_all add: tree_step_spec_place)

lemma flatten_spec_place: "flatten (spec_place forest a) = flatten forest @ [a]"
proof (cases forest)
  case Nil
  then show ?thesis by (simp add: flatten_def node_anchor_def)
next
  case (Cons n ns)
  have "flatten (butlast forest @ [last forest]) = flatten forest" using Cons by simp
  then have "flatten forest = flatten (butlast forest) @ node_anchor (last forest) # children (last forest)"
    by (simp add: flatten_def)
  then show ?thesis using Cons by (simp add: flatten_def node_anchor_def)
qed

lemma flatten_spec_forest_acc: "flatten (spec_forest_acc forest list) = flatten forest @ list"
  by (induction list arbitrary: forest) (simp_all add: flatten_spec_place)

lemma node_eta:
  "\<lparr>title = title n, href = href n, level = level n, children = children n\<rparr> = (n :: 'l anchor_node)"
  by (cases n) simp

lemma spec_forest_acc_split:
  "forest \<noteq> [] \<Longrightarrow> level (hd forest) = l0 \<Longrightarrow>
   spec_forest_acc forest list =
     (case spec_split l0 list of
        (cs, ns) \<Rightarrow> butlast forest
                    @ [\<lparr>title = title (last forest), href = href (last forest),
                        level = level (last forest), children = children (last forest) @ cs\<rparr>]
                    @ ns)"
proof (induction list arbitrary: forest)
  case Nil
  have "butlast forest @ [last forest] = forest" using Nil(1) by simp
  then show ?case by (simp add: node_eta)
next
  case (Cons a as)
  obtain n ns where f: "forest = n # ns" using Cons.prems(1) by (cases forest) auto
  obtain cs ms where sp: "spec_split l0 as = (cs, ms)" by (cases "spec_split l0 as")
  show ?case
  proof (cases "level a \<le> l0")
    case True
    let ?F = "forest @ [\<lparr>title = title a, href = href a, level = level a, children = []\<rparr>]"
    have 1: "spec_place forest a = ?F" using True f Cons.prems(2) by simp
    have "spec_forest_acc ?F as =
        (case spec_split l0 as of
          (cs, ns) \<Rightarrow> butlast ?F
                    @ [\<lparr>title = title (last ?F), href = href (last ?F),
                        level = level (last ?F), children = children (last ?F) @ cs\<rparr>]
                    @ ns)"
      using Cons.prems by (intro Cons.IH) simp_all
    moreover have "butlast forest @ [last forest] = forest" using f by simp
    ultimately show ?thesis using True sp by (simp add: 1 child_node_def node_eta)
  next
    case False
    let ?n = "\<lparr>title = title (last forest), href = href (last forest),
               level = level (last forest), children = children (last forest) @ [a]\<rparr>"
    let ?F = "butlast forest @ [?n]"
    have 1: "spec_place forest a = ?F" using False f Cons.prems(2) by simp
    have hd: "level (hd ?F) = l0"
      using Cons.prems(2) f by (cases ns) simp_all
    have "spec_forest_acc ?F as =
        (case spec_split l0 as of
          (cs, ns) \<Rightarrow> butlast ?F
                    @ [\<lparr>title = title (last ?F), href = href (last ?F),
                        level = level (last ?F), children = children (last ?F) @ cs\<rparr>]
                    @ ns)"
      using hd by (intro Cons.IH) simp_all
    then show ?thesis using False sp by (simp add: 1)
  qed
qed

lemma spec_forest_grouped: "spec_forest list = spec_grouped list"
proof (cases list)
  case Nil
  then show ?thesis by (simp add: spec_forest_def)
next
  case (Cons a as)
  let ?F = "[\<lparr>title = title a, href = href a, level = level a, children = []\<rparr>]"
  have "spec_forest_acc ?F as =
        (case spec_split (level a) as of
          (cs, ns) \<Rightarrow> butlast ?F
                    @ [\<lparr>title = title (last ?F), href = href (last ?F),
                        level = level (last ?F), children = children (last ?F) @ cs\<rparr>]
                    @ ns)"
    using spec_forest_acc_split[of ?F "level a" as] by simp
  then show ?thesis using Cons by (simp add: spec_forest_def child_node_def split: prod.splits)
qed

text \<open>
  C1.  For every flat anchor list, the anchor tree builder produces exactly the forest of
  the single left-to-right reduction of the specification: a new top-level node with an
  empty children sequence when the forest is empty or the anchor's level is at most the
  level of the first top-level node, and otherwise the anchor appended to the children of
  the most recently added top-level node.  Read off the list, the top-level nodes are the
  first anchor and the later anchors of at most its level, each with the anchors up to the
  next one as children; no anchor is lost or moved.
\<close>

theorem anchorsTree_is_spec_forest:
  "anchorsTree list = spec_forest list
   \<and> anchorsTree list = spec_grouped list
   \<and> flatten (anchorsTree list) = list"
proof (intro conjI)
  show 1: "anchorsTree list = spec_forest list"
    by (simp add: anchorsTree_def spec_forest_def foldl_tree_step)
  show "anchorsTree list = spec_grouped list"
    unfolding 1 by (rule spec_forest_grouped)
  have "flatten (spec_forest_acc [] list) = flatten [] @ list"
    by (rule flatten_spec_forest_acc)
  then show "flatten (anchorsTree list) = list"
    unfolding 1 by (simp add: spec_forest_def flatten_def)
qed

theorem anchorsTree_is_spec_forest_witness:
  "anchorsTree
     [\<lparr>title = js ''A'', href = js ''#a'', level = 1::nat\<rparr>,
      \<lparr>title = js ''B'', href = js ''#b'', level = 2\<rparr>,
      \<lparr>title = js ''C'', href = js ''#c'', level = 3\<rparr>,
      \<lparr>title = js ''E'', href = js ''#e'', level = 2\<rparr>,
      \<lparr>title = js ''F'', href = js ''#f'', level = 4\<rparr>,
      \<lparr>title = js ''D'', href = js ''#d'', level = 1\<rparr>,
      \<lparr>title = js ''G'', href = js ''#g'', level = 5\<rparr>,
      \<lparr>title = js ''H'', href = js ''#h'', level = 1\<rparr>]
   = [\<lparr>title = js ''A'', href = js ''#a'', level = 1,
        children = [\<lparr>title = js ''B'', href = js ''#b'', level = 2\<rparr>,
                    \<lparr>title = js ''C'', href = js ''#c'', level = 3\<rparr>,
                    \<lparr>title = js ''E'', href = js ''#e'', level = 2\<rparr>,
                    \<lparr>title = js ''F'', href = js ''#f'', level = 4\<rparr>]\<rparr>,
      \<lparr>title = js ''D'', href = js ''#d'', level = 1,
        children = [\<lparr>title = js ''G'', href = js ''#g'', level = 5\<rparr>]\<rparr>,
      \<lparr>title = js ''H'', href = js ''#h'', level = 1, children = []\<rparr>]"
  using anchorsTree_is_spec_forest
    [of "[\<lparr>title = js ''A'', href = js ''#a'', level = 1::nat\<rparr>,
          \<lparr>title = js ''B'', href = js ''#b'', level = 2\<rparr>,
          \<lparr>title = js ''C'', href = js ''#c'', level = 3\<rparr>,
          \<lparr>title = js ''E'', href = js ''#e'', level = 2\<rparr>,
          \<lparr>title = js ''F'', href = js ''#f'', level = 4\<rparr>,
          \<lparr>title = js ''D'', href = js ''#d'', level = 1\<rparr>,
          \<lparr>title = js ''G'', href = js ''#g'', level = 5\<rparr>,
          \<lparr>title = js ''H'', href = js ''#h'', level = 1\<rparr>]", THEN conjunct2, THEN conjunct1]
  by (simp add: child_node_def)

section \<open>The final id of a heading\<close>

text \<open>
  C2 as stated fails.  With no authored id the id is made from the heading's inner HTML as
  it is, tags included, not from the clean text; and an authored id that is empty counts
  as absent.
\<close>

theorem idNoEmoji_counterexample:
  \<open>map (\<lambda>r. (caps (snd r) 2, caps (snd r) 3))
      (match_all_from heading_rx (js ''<h2 class="x"><em>Hi</em></h2>'') 0)
     = [(None, Some (js ''<em>Hi</em>''))]
   \<and> idNoEmoji sample_env None (js ''<em>Hi</em>'') = js ''<em>hi</em>''
   \<and> spec_id sample_env None (js ''<em>Hi</em>'') = js ''hi''
   \<and> idNoEmoji sample_env (Some []) (js ''Hi'') = js ''hi''
   \<and> spec_id sample_env (Some []) (js ''Hi'') = []\<close>
proof -
  have m: \<open>map (\<lambda>r. (caps (snd r) 2, caps (snd r) 3))
      (match_all_from heading_rx (js ''<h2 class="x"><em>Hi</em></h2>'') 0)
     = [(None, Some (js ''<em>Hi</em>''))]\<close>
    by (simp add: heading_rx_def rx_eval)
  have t: "textNoTag (js ''<em>Hi</em>'') = Inr (js ''Hi'')"
    by (simp add: textNoTag_def starts_with_tag_rx_def element_rx_def trim_space_rx_def rx_eval)
  have 1: "idNoEmoji sample_env None (js ''<em>Hi</em>'') = js ''<em>hi</em>''"
    by (simp add: idNoEmoji_eq collapse_ws_def sample_env_def ascii_lower_def js_def is_space_def)
  have 2: "spec_id sample_env None (js ''<em>Hi</em>'') = js ''hi''"
    by (simp add: spec_id_def t) (simp add: collapse_ws_def sample_env_def ascii_lower_def js_def is_space_def)
  have 3: "idNoEmoji sample_env (Some []) (js ''Hi'') = js ''hi''"
    by (simp add: idNoEmoji_eq collapse_ws_def sample_env_def ascii_lower_def js_def is_space_def)
  have 4: "spec_id sample_env (Some []) (js ''Hi'') = []"
    by (simp add: spec_id_def trim_both_def replace_all_def sample_env_def
        match_all_from_Nil exec_from_None_iff cls_def start_at_def)
  from m 1 2 3 4 show ?thesis by (intro conjI)
qed

text \<open>
  C2, amended.  When the pattern captured an authored id that is not empty, the final id
  is that id with every match of the emoji pattern removed and then the white space and
  hyphens at both ends trimmed; if nothing is left the href is exactly \<open>#\<close>.  When no id
  was captured, or an empty one, the final id is the heading's inner HTML (not the clean
  text) lower-cased, with every run of white space replaced by one hyphen.  The href of
  the anchor is \<open>#\<close> followed by the final id.
\<close>

theorem heading_id:
  "idNoEmoji E hid text =
     (case hid of
        None \<Rightarrow> collapse_ws (toLowerCase E text)
      | Some i \<Rightarrow>
          if i = [] then collapse_ws (toLowerCase E text)
          else trim_both space_or_hyphen (replace_all (emojiRegex E) [] i))
   \<and> (heading_callback E raw lvl hid text = Inr (a, rep) \<longrightarrow>
        href a = js ''#'' @ idNoEmoji E hid text)
   \<and> (i \<noteq> [] \<and> replace_all (emojiRegex E) [] i = [] \<longrightarrow> idNoEmoji E (Some i) text = [])"
proof (intro conjI impI)
  show "idNoEmoji E hid text =
     (case hid of
        None \<Rightarrow> collapse_ws (toLowerCase E text)
      | Some i \<Rightarrow>
          if i = [] then collapse_ws (toLowerCase E text)
          else trim_both space_or_hyphen (replace_all (emojiRegex E) [] i))"
    by (rule idNoEmoji_eq)
next
  assume "heading_callback E raw lvl hid text = Inr (a, rep)"
  then show "href a = js ''#'' @ idNoEmoji E hid text" by (rule heading_callback_href)
next
  assume "i \<noteq> [] \<and> replace_all (emojiRegex E) [] i = []"
  then show "idNoEmoji E (Some i) text = []" by (simp add: idNoEmoji_eq trim_both_def)
qed

theorem heading_id_witness:
  \<open>idNoEmoji sample_env (Some (js ''- a'' @ [0x263A] @ js ''b --'')) (js ''T'') = js ''ab''
   \<and> idNoEmoji sample_env None (js ''Hello   big World'') = js ''hello-big-world''
   \<and> heading_callback sample_env (js ''<h1 id="xy">A</h1>'') (js ''1'') (Some [0x263A]) (js ''A'')
       = Inr (\<lparr>title = js ''A'', href = js ''#'', level = js ''1''\<rparr>,
              heading_html (js ''1'') [] [] (js ''A''))
   \<and> [0x263A] \<noteq> ([] :: jsstring) \<and> replace_all (emojiRegex sample_env) [] [0x263A] = []
   \<and> idNoEmoji sample_env (Some [0x263A]) (js ''A'') = []\<close>
proof -
  let ?i = "js ''- a'' @ [0x263A] @ js ''b --''"
  let ?raw = \<open>js ''<h1 id="xy">A</h1>''\<close>
  let ?a = "\<lparr>title = js ''A'', href = js ''#'', level = js ''1''\<rparr>"
  let ?rep = "heading_html (js ''1'') [] [] (js ''A'')"
  have e1: "replace_all (emojiRegex sample_env) [] ?i = js ''- ab --''"
    by (simp add: sample_env_def rx_eval)
  have e2: "replace_all (emojiRegex sample_env) [] [0x263A] = []"
    by (simp add: sample_env_def rx_eval)
  note T1 = heading_id[of sample_env "Some ?i" "js ''T''", THEN conjunct1]
  note T2 = heading_id[of sample_env None "js ''Hello   big World''", THEN conjunct1]
  note T3 = heading_id[of sample_env "Some [0x263A]" "js ''A''" ?raw "js ''1''" ?a ?rep "[0x263A]"]
  have "idNoEmoji sample_env (Some ?i) (js ''T'') = trim_both space_or_hyphen (js ''- ab --'')"
    using T1 e1 by simp
  also have "\<dots> = js ''ab''"
    by (simp add: trim_both_def space_or_hyphen_def is_space_def js_def)
  finally have 1: "idNoEmoji sample_env (Some ?i) (js ''T'') = js ''ab''" .
  have 2: "idNoEmoji sample_env None (js ''Hello   big World'') = js ''hello-big-world''"
    unfolding T2 by (simp add: collapse_ws_def sample_env_def ascii_lower_def js_def is_space_def)
  have 3: "idNoEmoji sample_env (Some [0x263A]) (js ''A'') = []"
    using T3[THEN conjunct2, THEN conjunct2] e2 by simp
  have t: "textNoTag (js ''A'') = Inr (js ''A'')"
    by (simp add: textNoTag_def starts_with_tag_rx_def element3_rx_def rx_eval)
  have at: "attrsNoId ?raw = Inr []"
    by (simp add: attrsNoId_def open_tag_rx_def id_attr_rx_def rx_eval)
  have cb: "heading_callback sample_env ?raw (js ''1'') (Some [0x263A]) (js ''A'') = Inr (?a, ?rep)"
    by (simp add: heading_callback_def t at 3)
  from T3[THEN conjunct2, THEN conjunct1] cb
  have "href ?a = js ''#'' @ idNoEmoji sample_env (Some [0x263A]) (js ''A'')" by (rule mp)
  from 1 2 cb e2 3 show ?thesis by simp
qed

section \<open>The title of an anchor\<close>

text \<open>
  C3 as stated fails.  The code only tests that the inner HTML begins with an opening tag,
  not that one tag wraps all of it: the title is then the content of the first element and
  what follows that element is lost.  And when the inner HTML does not begin with a tag,
  every element is removed together with its content, not only its markup.
\<close>

theorem textNoTag_counterexample:
  "textNoTag (js ''<em>A</em> B'') = Inr (js ''A'')
   \<and> spec_title (js ''<em>A</em> B'') = js ''A B''
   \<and> textNoTag (js ''Hello <em>world</em>'') = Inr (js ''Hello '')
   \<and> spec_title (js ''Hello <em>world</em>'') = js ''Hello world''"
proof -
  have 1: "textNoTag (js ''<em>A</em> B'') = Inr (js ''A'')"
    by (simp add: textNoTag_def starts_with_tag_rx_def element_rx_def trim_space_rx_def rx_eval)
  have 2: "spec_title (js ''<em>A</em> B'') = js ''A B''"
    by (simp add: spec_title_def wrapped_content_def Let_def js_def is_word_def is_digit_def)
  have 3: "textNoTag (js ''Hello <em>world</em>'') = Inr (js ''Hello '')"
    by (simp add: textNoTag_def starts_with_tag_rx_def element3_rx_def rx_eval)
  have 4: "spec_title (js ''Hello <em>world</em>'') = js ''Hello world''"
    by (simp add: spec_title_def wrapped_content_def Let_def js_def is_word_def is_digit_def)
  from 1 2 3 4 show ?thesis by (intro conjI)
qed

text \<open>
  C3, amended.  The title of the anchor that a heading pushes is the clean text of its inner
  HTML (the third group of the heading pattern), which the code computes as \<open>clean_text\<close>
  says, for every inner HTML.  An element
  is \<open><\<close>, a name of word characters, anything up to the next \<open>>\<close>, the shortest content
  without line terminator that is followed by the closing tag of that name, and this
  closing tag; the name is the longest stretch of the word characters after the \<open><\<close> for
  which such a closing tag is found.  If the inner HTML begins with \<open><\<close>, a word character
  and has a \<open>>\<close> further on, the title is the content of the first element of the inner
  HTML, with the white space at both ends trimmed, whatever precedes and follows that
  element; and if there is no element, the callback throws a \<open>TypeError\<close> and no anchor is
  pushed.  Otherwise the title is the inner HTML with every element removed from left to
  right, content included, and the remaining text kept.
\<close>

theorem title_text:
  "textNoTag text = clean_text text
   \<and> (heading_callback E raw lvl hid text = Inr (an, rep) \<longrightarrow> clean_text text = Inr (title an))
   \<and> (callback_of E str r = Inr (an, rep) \<longrightarrow> clean_text (cap_str (snd r) 3) = Inr (title an))"
proof -
  have eq: "textNoTag t = clean_text t" for t
  proof (cases "starts_with_tag t")
    case True
    have "(case exec_from element_rx t 0 of None \<Rightarrow> None | Some r \<Rightarrow> caps (snd r) 2)
          = map_option (\<lambda>(name, a, inner). inner) (first_element t)"
      using exec_element_rx[of 0 t] by simp
    then have "(case exec_from element_rx t 0 of
            None \<Rightarrow> Inl TypeError
          | Some r \<Rightarrow>
              (case caps (snd r) 2 of None \<Rightarrow> Inl TypeError
               | Some inner \<Rightarrow> Inr (replace_all trim_space_rx [] inner)))
        = (case first_element t of
              None \<Rightarrow> Inl TypeError
            | Some (name, a, inner) \<Rightarrow> Inr (trim_both is_space inner))"
      by (cases "exec_from element_rx t 0"; cases "first_element t")
         (auto simp: trim_space_rx_eq replace_all_trim split: option.splits)
    then show ?thesis using True
      by (simp add: textNoTag_def clean_text_def starts_with_tag_rx_iff)
  next
    case False
    have "replace_all element3_rx [] t = remove_elements t"
      unfolding replace_all_def using replace_elements[of 0 t] by simp
    then show ?thesis using False
      by (simp add: textNoTag_def clean_text_def starts_with_tag_rx_iff)
  qed
  have 2: "heading_callback E raw lvl hid text = Inr (an, rep) \<longrightarrow> clean_text text = Inr (title an)"
    unfolding eq[symmetric] using heading_callback_title by blast
  have 3: "callback_of E str r = Inr (an, rep) \<longrightarrow> clean_text (cap_str (snd r) 3) = Inr (title an)"
    unfolding eq[symmetric] callback_of_def using heading_callback_title by blast
  from eq 2 3 show ?thesis by (intro conjI)
qed

theorem title_text_witness:
  \<open>textNoTag (js ''<strong>bold <em>x</em></strong>'') = Inr (js ''bold <em>x</em>'')
   \<and> textNoTag (js ''<br><em>x</em>'') = Inr (js ''x'')
   \<and> textNoTag (js ''<ab>x</a>'') = Inr (js ''x'')
   \<and> textNoTag (js ''Hello <em>world</em> and <a href=x>y</a>!'') = Inr (js ''Hello  and !'')
   \<and> textNoTag (js ''<br>x'') = Inl TypeError
   \<and> heading_callback sample_env (js ''<h1 id="xy"><em> A </em> B</h1>'') (js ''1'') (Some (js ''xy''))
         (js ''<em> A </em> B'')
       = Inr (\<lparr>title = js ''A'', href = js ''#xy'', level = js ''1''\<rparr>,
              heading_html (js ''1'') [] (js ''xy'') (js ''<em> A </em> B''))
   \<and> clean_text (js ''<em> A </em> B'') = Inr (js ''A'')
   \<and> map (\<lambda>r. (callback_of sample_env (js ''<h1 id="xy"><em> A </em> B</h1>'') r, cap_str (snd r) 3))
         (match_all_from heading_rx (js ''<h1 id="xy"><em> A </em> B</h1>'') 0)
       = [(Inr (\<lparr>title = js ''A'', href = js ''#xy'', level = js ''1''\<rparr>,
                heading_html (js ''1'') [] (js ''xy'') (js ''<em> A </em> B'')),
           js ''<em> A </em> B'')]\<close>
proof -
  let ?raw = \<open>js ''<h1 id="xy"><em> A </em> B</h1>''\<close>
  let ?an = "\<lparr>title = js ''A'', href = js ''#xy'', level = js ''1''\<rparr>"
  let ?rep = "heading_html (js ''1'') [] (js ''xy'') (js ''<em> A </em> B'')"
  note ev = clean_text_def starts_with_tag_def element_start_def element_named_def close_tag_def
    trim_both_def is_word_def is_digit_def is_line_terminator_def is_space_def js_def
  have 1: "textNoTag (js ''<strong>bold <em>x</em></strong>'') = Inr (js ''bold <em>x</em>'')"
    unfolding title_text[of "js ''<strong>bold <em>x</em></strong>''", THEN conjunct1]
    by (simp add: ev)
  have 2: "textNoTag (js ''<br><em>x</em>'') = Inr (js ''x'')"
    unfolding title_text[of "js ''<br><em>x</em>''", THEN conjunct1]
    by (simp add: ev)
  have 3: "textNoTag (js ''<ab>x</a>'') = Inr (js ''x'')"
    unfolding title_text[of "js ''<ab>x</a>''", THEN conjunct1]
    by (simp add: ev)
  have 4: "textNoTag (js ''Hello <em>world</em> and <a href=x>y</a>!'') = Inr (js ''Hello  and !'')"
    unfolding title_text[of "js ''Hello <em>world</em> and <a href=x>y</a>!''", THEN conjunct1]
    by (simp add: ev)
  have 5: "textNoTag (js ''<br>x'') = Inl TypeError"
    unfolding title_text[of "js ''<br>x''", THEN conjunct1]
    by (simp add: ev)
  have \<open>map (\<lambda>r. (fst r, pos (snd r), caps (snd r) 1, caps (snd r) 2, caps (snd r) 3))
     (match_all_from heading_rx ?raw 0)
     = [(0, 31, Some (js ''1''), Some (js ''xy''), Some (js ''<em> A </em> B''))]\<close>
    by (simp add: heading_rx_def rx_eval)
  then obtain r where m: "match_all_from heading_rx ?raw 0 = [r]"
    and r: "fst r = 0" "pos (snd r) = 31" "caps (snd r) 1 = Some (js ''1'')"
      "caps (snd r) 2 = Some (js ''xy'')" "caps (snd r) 3 = Some (js ''<em> A </em> B'')"
    by (auto simp: map_eq_Cons_conv)
  note T = title_text[of "js ''<em> A </em> B''" sample_env ?raw "js ''1''" "Some (js ''xy'')" ?an ?rep
      ?raw r]
  have c: "clean_text (js ''<em> A </em> B'') = Inr (js ''A'')"
    by (simp add: ev)
  have t: "textNoTag (js ''<em> A </em> B'') = Inr (js ''A'')"
    unfolding T[THEN conjunct1] by (rule c)
  have i: "idNoEmoji sample_env (Some (js ''xy'')) (js ''<em> A </em> B'') = js ''xy''"
    by (simp add: idNoEmoji_def trim_id_rx_def sample_env_def rx_eval)
  have at: "attrsNoId ?raw = Inr []"
    by (simp add: attrsNoId_def open_tag_rx_def id_attr_rx_def rx_eval)
  have hj: "js ''#'' @ js ''xy'' = js ''#xy''" by (simp add: js_def)
  have cb: "heading_callback sample_env ?raw (js ''1'') (Some (js ''xy'')) (js ''<em> A </em> B'')
            = Inr (?an, ?rep)"
    by (simp add: heading_callback_def t at i Let_def hj)
  have raw: "matched ?raw r = ?raw" by (simp add: matched_def r js_def)
  have c3: "cap_str (snd r) 3 = js ''<em> A </em> B''" "cap_str (snd r) 1 = js ''1''"
    using r by (simp_all add: cap_str_def)
  have co: "callback_of sample_env ?raw r = Inr (?an, ?rep)"
    unfolding callback_of_def raw c3 r(4) by (rule cb)
  from T[THEN conjunct2, THEN conjunct1] cb
  have "clean_text (js ''<em> A </em> B'') = Inr (title ?an)" by (rule mp)
  then have 7: "clean_text (js ''<em> A </em> B'') = Inr (js ''A'')" by simp
  from T[THEN conjunct2, THEN conjunct2] co
  have "clean_text (cap_str (snd r) 3) = Inr (title ?an)" by (rule mp)
  have 8: "map (\<lambda>r. (callback_of sample_env ?raw r, cap_str (snd r) 3)) (match_all_from heading_rx ?raw 0)
       = [(Inr (?an, ?rep), js ''<em> A </em> B'')]"
    by (simp add: m co c3)
  from 1 2 3 4 5 cb 7 8 show ?thesis by (intro conjI)
qed

section \<open>The line-number gutter\<close>

lemma newline_rx_at:
  "newline_rx s (start_at j) Some =
     (if j < length s \<and> s ! j = 10 \<and> Suc j \<noteq> length s
      then Some \<lparr>pos = Suc j, caps = (\<lambda>n. None)\<rparr> else None)"
  by (simp add: newline_rx_def rx_steps)

lemma filter_upt_first:
  assumes "i \<le> st" "st < n" "P st" "\<forall>j. i \<le> j \<and> j < st \<longrightarrow> \<not> P j"
  shows "filter P [i..<n] = st # filter P [Suc st..<n]"
proof -
  have "[i..<n] = [i..<st] @ st # [Suc st..<n]"
    using assms(1,2) by (metis le_add_diff_inverse less_imp_le_nat upt_add_eq_append upt_conv_Cons)
  moreover have "filter P [i..<st] = []" using assms(4) by (auto simp: filter_empty_conv)
  ultimately show ?thesis using assms(3) by simp
qed

lemma match_all_newline:
  "map fst (match_all_from newline_rx s i) =
     filter (\<lambda>j. s ! j = 10 \<and> Suc j \<noteq> length s) [i..<length s]"
proof (induction newline_rx s i rule: match_all_from.induct)
  case (1 s i)
  let ?P = "\<lambda>j. s ! j = 10 \<and> Suc j \<noteq> length s"
  show ?case
  proof (cases "exec_from newline_rx s i")
    case None
    then have "\<forall>j. i \<le> j \<and> j < length s \<longrightarrow> \<not> ?P j"
      by (auto simp: exec_from_None_iff newline_rx_at split: if_splits)
    then have "filter ?P [i..<length s] = []" by (auto simp: filter_empty_conv)
    with None show ?thesis by (subst match_all_from.simps) simp
  next
    case (Some r)
    obtain st y where r: "r = (st, y)" by (cases r)
    from Some r have e: "exec_from newline_rx s i = Some (st, y)" by simp
    then have st: "i \<le> st" "st < length s" "?P st" and y: "pos y = Suc st"
      and before: "\<forall>j. i \<le> j \<and> j < st \<longrightarrow> \<not> ?P j"
      by (auto simp: exec_from_Some_iff newline_rx_at split: if_splits)
    have "map fst (match_all_from newline_rx s i)
        = st # map fst (match_all_from newline_rx s (Suc st))"
      using e y by (subst match_all_from.simps) simp
    also have "map fst (match_all_from newline_rx s (Suc st)) = filter ?P [Suc st..<length s]"
      using "1.hyps"[OF e refl] y by simp
    finally show ?thesis using filter_upt_first[of i st "length s" ?P] st before by simp
  qed
qed

lemma linesNum_eq: "linesNum code = inner_newlines code + 1"
proof -
  have "linesNum code = length (match_all_from newline_rx code 0) + 1"
    by (simp add: linesNum_def match_global_def split: list.split)
  also have "length (match_all_from newline_rx code 0)
      = length (map fst (match_all_from newline_rx code 0))" by simp
  finally show ?thesis by (simp only: match_all_newline inner_newlines_def)
qed

lemma join_holes: "join sep ([] # replicate n []) = concat (replicate n sep)"
  by (induction n) simp_all

lemma gutter_lines:
  "join sep (replicate (linesNum code + 1) []) = concat (replicate (inner_newlines code + 1) sep)"
  using join_holes[of sep "Suc (inner_newlines code)"] by (simp add: linesNum_eq)

text \<open>
  C4.  For every code string, the gutter rendered by the code-block renderer holds exactly
  \<open>n + 1\<close> empty marker elements, where \<open>n\<close> is the number of newline characters of the
  code that are not at the very end of the string.
\<close>

theorem renderer_code_gutter:
  \<open>renderer_code E code infostring =
     nl @ sp 6 @ js ''<div class="code_wrap">''
     @ nl @ sp 8 @ js ''<button data-type="copy">copy</button>''
     @ nl @ sp 8 @ js ''<pre class="line-numbers '' @ langsPrefix infostring
       @ js ''"><code class="'' @ langsPrefix infostring @ js ''">''
     @ nl @ sp 10 @ highlighted E code infostring
     @ js ''<span aria-hidden="true" class="line-numbers-rows">''
     @ concat (replicate (inner_newlines code + 1) (js ''<span></span>''))
     @ js ''</span>''
     @ nl @ sp 8 @ js ''</code></pre>''
     @ nl @ sp 6 @ js ''</div>''\<close>
  unfolding renderer_code_def lineNumbersWrapper_def gutter_lines by simp

theorem renderer_code_gutter_witness:
  \<open>renderer_code sample_env (js ''a'' @ nl @ js ''b'' @ nl) (js ''ts'') =
     nl @ sp 6 @ js ''<div class="code_wrap">''
     @ nl @ sp 8 @ js ''<button data-type="copy">copy</button>''
     @ nl @ sp 8 @ js ''<pre class="line-numbers language-ts"><code class="language-ts">''
     @ nl @ sp 10 @ js ''a'' @ nl @ js ''b'' @ nl
     @ js ''<span aria-hidden="true" class="line-numbers-rows"><span></span><span></span></span>''
     @ nl @ sp 8 @ js ''</code></pre>''
     @ nl @ sp 6 @ js ''</div>''\<close>
  using renderer_code_gutter[of sample_env "js ''a'' @ nl @ js ''b'' @ nl" "js ''ts''"]
  by (simp add: inner_newlines_def langsPrefix_def highlighted_def sample_env_def blank_rx_def
      rx_eval)

section \<open>Empty input\<close>

text \<open>
  C5 as stated fails: on empty input the parser is run all the same (\<open>parse\<close> is called
  before \<open>value\<close> is tested), and with a name hint that is not markdown the text parsed is
  not empty.
\<close>

theorem useMarked_empty_counterexample:
  "useMarked sample_env [] (js ''doc.md'') \<lparr>anchorsFlat = [], parse_log = []\<rparr>
     = (Inr \<lparr>content = [], anchors = [], isMarkdown = True\<rparr>,
        \<lparr>anchorsFlat = [], parse_log = [[]]\<rparr>)
   \<and> parse_log (snd (useMarked sample_env [] (js ''doc.md'') \<lparr>anchorsFlat = [], parse_log = []\<rparr>)) \<noteq> []
   \<and> parse_log (snd (useMarked sample_env [] (js ''snippet.ts'') \<lparr>anchorsFlat = [], parse_log = []\<rparr>))
       = [replicate 3 96 @ js ''ts'' @ nl @ nl @ replicate 3 96]"
proof -
  have md: "lang_of (js ''doc.md'') = Inr (js ''md'')" and ts: "lang_of (js ''snippet.ts'') = Inr (js ''ts'')"
    by (simp_all add: lang_of_eq file_ext_def after_last_dot_def not_dot_def js_def)
  have i: "isMarkdown_of (js ''md'')" "\<not> isMarkdown_of (js ''ts'')"
    by (simp_all add: isMarkdown_of_iff ascii_lower_def js_def)
  have b: "replace_first bom_rx [] (replicate 3 96 @ js ''ts'' @ nl @ nl @ replicate 3 96)
      = replicate 3 96 @ js ''ts'' @ nl @ nl @ replicate 3 96"
    by (simp add: bom_rx_def rx_eval numeral_3_eq_3)
  have 1: "useMarked sample_env [] (js ''doc.md'') \<lparr>anchorsFlat = [], parse_log = []\<rparr>
     = (Inr \<lparr>content = [], anchors = [], isMarkdown = True\<rparr>,
        \<lparr>anchorsFlat = [], parse_log = [[]]\<rparr>)"
    by (simp add: useMarked_def md i mdStr_of_def getHtmlStr_empty anchorsTree_def)
  have x: "ext_lang (js ''snippet.ts'') = js ''ts''"
    using ts by (simp add: lang_of_eq ext_lang_def)
  have 2: "parse_log (snd (useMarked sample_env [] (js ''snippet.ts'') \<lparr>anchorsFlat = [], parse_log = []\<rparr>))
       = [replicate 3 96 @ js ''ts'' @ nl @ nl @ replicate 3 96]"
    unfolding useMarked_parse_log x by (simp add: mdStr_of_def i b)
  from 1 2 show ?thesis by simp
qed

text \<open>
  C5, amended.  For empty raw text and a name hint that selects markdown, the conversion
  returns exactly the empty string as html and the flat anchor list (and the anchor tree)
  is empty.  The external parser is called all the same, once and on the empty string,
  and its result is dropped.
\<close>

theorem useMarked_empty:
  "ascii_lower (ext_lang ttl) = js ''md'' \<Longrightarrow>
   useMarked E [] ttl st =
     (Inr \<lparr>content = [], anchors = [], isMarkdown = True\<rparr>,
      \<lparr>anchorsFlat = [], parse_log = parse_log st @ [[]]\<rparr>)"
proof -
  assume m: "ascii_lower (ext_lang ttl) = js ''md''"
  have "lang_of ttl = Inr (ext_lang ttl)" by (simp add: lang_of_eq ext_lang_def)
  moreover have "isMarkdown_of (ext_lang ttl)" using m by (simp add: isMarkdown_of_iff)
  ultimately show ?thesis
    by (simp add: useMarked_def mdStr_of_def getHtmlStr_empty anchorsTree_def)
qed

theorem useMarked_empty_witness:
  "ascii_lower (ext_lang (js ''README.MD'')) = js ''md''
   \<and> useMarked sample_env [] (js ''README.MD'') \<lparr>anchorsFlat = [], parse_log = [js ''# old'']\<rparr> =
     (Inr \<lparr>content = [], anchors = [], isMarkdown = True\<rparr>,
      \<lparr>anchorsFlat = [], parse_log = [js ''# old'', []]\<rparr>)"
proof -
  have m: "ascii_lower (ext_lang (js ''README.MD'')) = js ''md''"
    by (simp add: ext_lang_def file_ext_def after_last_dot_def not_dot_def ascii_lower_def js_def)
  from useMarked_empty[OF m, of sample_env "\<lparr>anchorsFlat = [], parse_log = [js ''# old'']\<rparr>"] m
  show ?thesis by simp
qed

section \<open>The language of a name hint\<close>

text \<open>
  C6 as stated fails: the language is not what stands before the first dot of the name
  hint.  For \<open>doc.md\<close> the code takes \<open>md\<close> and treats the text as markdown; the part
  before the first dot is \<open>doc\<close>.
\<close>

theorem lang_of_counterexample:
  "lang_of (js ''doc.md'') = Inr (js ''md'')
   \<and> spec_lang (js ''doc.md'') = js ''doc''
   \<and> isMarkdown_of (js ''md'')
   \<and> \<not> isMarkdown_of (spec_lang (js ''doc.md''))"
  by (simp add: lang_of_eq isMarkdown_of_iff spec_lang_def file_ext_def after_last_dot_def
      before_first_dot_def not_dot_def ascii_lower_def js_def)

text \<open>
  C6, amended.  For every name hint, \<open>lang\<close> is the part of the hint after its last dot,
  and the empty string when the hint has no dot (or ends with one), with the first
  occurrence of \<open>vue\<close> replaced by \<open>html\<close>.  \<open>isMarkdown\<close> is true iff \<open>lang\<close> is \<open>md\<close> up to
  the case of the two letters.  When it is false, the text handed to \<open>getHtmlStr\<close> is the
  raw text between a fence line that carries \<open>lang\<close> and a closing fence line; when it is
  true, it is the raw text itself.  The parser receives that text (less one leading
  zero-width character).
\<close>

theorem useMarked_lang:
  "lang_of ttl = Inr (ext_lang ttl)
   \<and> (isMarkdown_of (ext_lang ttl) \<longleftrightarrow> ascii_lower (ext_lang ttl) = js ''md'')
   \<and> mdStr_of (ext_lang ttl) v =
       (if ascii_lower (ext_lang ttl) = js ''md'' then v
        else replicate 3 96 @ ext_lang ttl @ nl @ v @ nl @ replicate 3 96)
   \<and> useMarked E v ttl st =
       (case getHtmlStr E (mdStr_of (ext_lang ttl) v) (st\<lparr>anchorsFlat := []\<rparr>) of
          (Inl e, st2) \<Rightarrow> (Inl e, st2)
        | (Inr html, st2) \<Rightarrow>
            (Inr \<lparr>content = html, anchors = anchorsTree (anchorsFlat st2),
                  isMarkdown = (ascii_lower (ext_lang ttl) = js ''md'')\<rparr>, st2))
   \<and> parse_log (snd (useMarked E v ttl st)) =
       parse_log st @ [replace_first bom_rx [] (mdStr_of (ext_lang ttl) v)]"
proof -
  have l: "lang_of ttl = Inr (ext_lang ttl)" by (simp add: lang_of_eq ext_lang_def)
  have u: "useMarked E v ttl st =
       (case getHtmlStr E (mdStr_of (ext_lang ttl) v) (st\<lparr>anchorsFlat := []\<rparr>) of
          (Inl e, st2) \<Rightarrow> (Inl e, st2)
        | (Inr html, st2) \<Rightarrow>
            (Inr \<lparr>content = html, anchors = anchorsTree (anchorsFlat st2),
                  isMarkdown = (ascii_lower (ext_lang ttl) = js ''md'')\<rparr>, st2))"
    unfolding useMarked_def l isMarkdown_of_iff by simp
  note p = useMarked_parse_log[of E v ttl st]
  from l u p show ?thesis by (simp add: isMarkdown_of_iff mdStr_of_def)
qed

theorem useMarked_lang_witness:
  "lang_of (js ''App.vue'') = Inr (js ''html'')
   \<and> \<not> isMarkdown_of (js ''html'')
   \<and> mdStr_of (js ''html'') (js ''x'') = replicate 3 96 @ js ''html'' @ nl @ js ''x'' @ nl @ replicate 3 96
   \<and> parse_log (snd (useMarked sample_env (js ''x'') (js ''App.vue'') \<lparr>anchorsFlat = [], parse_log = []\<rparr>))
       = [replicate 3 96 @ js ''html'' @ nl @ js ''x'' @ nl @ replicate 3 96]"
proof -
  have e: "ext_lang (js ''App.vue'') = js ''html''"
    by (simp add: ext_lang_def file_ext_def after_last_dot_def not_dot_def js_def)
  have n: "ascii_lower (js ''html'') \<noteq> js ''md''"
    by (simp add: ascii_lower_def js_def)
  have b: "replace_first bom_rx [] (replicate 3 96 @ js ''html'' @ nl @ js ''x'' @ nl @ replicate 3 96)
      = replicate 3 96 @ js ''html'' @ nl @ js ''x'' @ nl @ replicate 3 96"
    by (simp add: bom_rx_def rx_eval numeral_3_eq_3)
  note t = useMarked_lang[of "js ''App.vue''" "js ''x''" sample_env
      "\<lparr>anchorsFlat = [], parse_log = []\<rparr>", unfolded e]
  from t have c1: "lang_of (js ''App.vue'') = Inr (js ''html'')" by (rule conjunct1)
  note t2 = t[THEN conjunct2]
  note t3 = t2[THEN conjunct2]
  note t4 = t3[THEN conjunct2]
  from t2 have "isMarkdown_of (js ''html'') \<longleftrightarrow> ascii_lower (js ''html'') = js ''md''"
    by (rule conjunct1)
  with n have c2: "\<not> isMarkdown_of (js ''html'')" by (simp only: simp_thms)
  from t3 have "mdStr_of (js ''html'') (js ''x'') =
      (if ascii_lower (js ''html'') = js ''md'' then js ''x''
       else replicate 3 96 @ js ''html'' @ nl @ js ''x'' @ nl @ replicate 3 96)"
    by (rule conjunct1)
  with n have c3: "mdStr_of (js ''html'') (js ''x'')
      = replicate 3 96 @ js ''html'' @ nl @ js ''x'' @ nl @ replicate 3 96"
    by (simp only: if_False)
  from t4 have "parse_log (snd (useMarked sample_env (js ''x'') (js ''App.vue'')
        \<lparr>anchorsFlat = [], parse_log = []\<rparr>))
      = parse_log \<lparr>anchorsFlat = [], parse_log = []\<rparr>
        @ [replace_first bom_rx [] (mdStr_of (js ''html'') (js ''x''))]"
    by (rule conjunct2)
  then have c4: "parse_log (snd (useMarked sample_env (js ''x'') (js ''App.vue'')
        \<lparr>anchorsFlat = [], parse_log = []\<rparr>))
      = [replicate 3 96 @ js ''html'' @ nl @ js ''x'' @ nl @ replicate 3 96]"
    unfolding c3 b by (simp only: pstate.simps append_Nil)
  from c1 c2 c3 c4 show ?thesis by (intro conjI)
qed

section \<open>Anchors in document order\<close>

lemma example_matches:
  "map (\<lambda>r. (fst r, pos (snd r), caps (snd r) 1, caps (snd r) 2, caps (snd r) 3))
     (match_all_from heading_rx example_html 0)
   = [(0, 17, Some (js ''1''), Some (js ''a''), Some (js ''A'')),
      (18, 35, Some (js ''2''), Some (js ''b''), Some (js ''B'')),
      (36, 53, Some (js ''1''), Some (js ''c''), Some (js ''C''))]"
  by (simp add: example_html_def heading_rx_def rx_eval)

lemma example_anchors:
  assumes "marked_parse E (renderer_code E) example_md = example_html"
  shows "map (\<lambda>a. (title a, level a)) (anchorsFlat (snd (useMarked E example_md (js ''.md'') st)))
     = [(js ''A'', js ''1''), (js ''B'', js ''2''), (js ''C'', js ''1'')]"
proof -
  have l: "lang_of (js ''.md'') = Inr (js ''md'')"
    by (simp add: lang_of_eq file_ext_def after_last_dot_def not_dot_def js_def)
  have i: "isMarkdown_of (js ''md'')"
    by (simp add: isMarkdown_of_iff ascii_lower_def js_def)
  have b: "replace_first bom_rx [] example_md = example_md"
    by (simp add: example_md_def bom_rx_def rx_eval)
  have ne: "example_md \<noteq> []" by (simp add: example_md_def js_def)
  obtain r1 r2 r3 where ms: "match_all_from heading_rx example_html 0 = [r1, r2, r3]"
    and r1: "fst r1 = 0" "pos (snd r1) = 17" "caps (snd r1) 1 = Some (js ''1'')"
      "caps (snd r1) 2 = Some (js ''a'')" "caps (snd r1) 3 = Some (js ''A'')"
    and r2: "fst r2 = 18" "pos (snd r2) = 35" "caps (snd r2) 1 = Some (js ''2'')"
      "caps (snd r2) 2 = Some (js ''b'')" "caps (snd r2) 3 = Some (js ''B'')"
    and r3: "fst r3 = 36" "pos (snd r3) = 53" "caps (snd r3) 1 = Some (js ''1'')"
      "caps (snd r3) 2 = Some (js ''c'')" "caps (snd r3) 3 = Some (js ''C'')"
    using example_matches by (auto simp: map_eq_Cons_conv)
  have t: "textNoTag (js ''A'') = Inr (js ''A'')" "textNoTag (js ''B'') = Inr (js ''B'')"
    "textNoTag (js ''C'') = Inr (js ''C'')"
    by (simp_all add: textNoTag_def starts_with_tag_rx_def element3_rx_def rx_eval)
  have a1: \<open>attrsNoId (take (17 - 0) (drop 0 example_html)) = Inr (js ''id="a"'')\<close>
    by (simp add: example_html_def attrsNoId_def open_tag_rx_def id_attr_rx_def rx_eval)
  have a2: \<open>attrsNoId (take (35 - 18) (drop 18 example_html)) = Inr (js ''id="b"'')\<close>
    by (simp add: example_html_def attrsNoId_def open_tag_rx_def id_attr_rx_def rx_eval)
  have a3: \<open>attrsNoId (take (53 - 36) (drop 36 example_html)) = Inr (js ''id="c"'')\<close>
    by (simp add: example_html_def attrsNoId_def open_tag_rx_def id_attr_rx_def rx_eval)
  note c1 = callback_of_eval[OF r1 t(1) a1, of E]
  note c2 = callback_of_eval[OF r2 t(2) a2, of E]
  note c3 = callback_of_eval[OF r3 t(3) a3, of E]
  have pp: "map (\<lambda>a. (title a, level a)) (anchorsFlat (snd (postProcess E example_html s0)))
     = [(js ''A'', js ''1''), (js ''B'', js ''2''), (js ''C'', js ''1'')]"
    if "anchorsFlat s0 = []" for s0
    unfolding postProcess_def ms using that by (simp add: c1 c2 c3)
  have x: "ext_lang (js ''.md'') = js ''md''" using l by (simp add: lang_of_eq ext_lang_def)
  have "snd (useMarked E example_md (js ''.md'') st)
      = snd (postProcess E example_html
               (st\<lparr>anchorsFlat := [], parse_log := parse_log st @ [example_md]\<rparr>))"
    unfolding useMarked_snd x by (simp add: mdStr_of_def i getHtmlStr_def b ne assms)
  then show ?thesis by (simp add: pp)
qed

text \<open>
  C7.  The matches of the heading pattern are found from left to right, at strictly
  increasing positions of the generated HTML, and the anchors pushed are those of the
  matches, in that order (of all the matches when the run returns, of the matches before
  the one whose callback throws otherwise).  In particular, where the parser makes the
  three headings of the example out of \<open># A\<close>, \<open>## B\<close>, \<open># C\<close>, the flat list holds the
  anchors A (level 1), B (level 2), C (level 1), in that order.
\<close>

theorem anchors_document_order:
  "sorted_wrt (<) (map fst (match_all_from heading_rx str 0))
   \<and> (\<exists>k \<le> length (match_all_from heading_rx str 0).
         map Some (anchorsFlat (snd (postProcess E str st))) =
           map Some (anchorsFlat st)
           @ map (anchor_of E str) (take k (match_all_from heading_rx str 0))
         \<and> (\<forall>out. fst (postProcess E str st) = Inr out \<longrightarrow>
               k = length (match_all_from heading_rx str 0)))
   \<and> (marked_parse E (renderer_code E) example_md = example_html \<longrightarrow>
        map (\<lambda>a. (title a, level a)) (anchorsFlat (snd (useMarked E example_md (js ''.md'') st)))
          = [(js ''A'', js ''1''), (js ''B'', js ''2''), (js ''C'', js ''1'')])"
proof (intro conjI impI)
  show "sorted_wrt (<) (map fst (match_all_from heading_rx str 0))"
    using match_all_starts[of heading_rx str 0] by simp
next
  let ?ms = "match_all_from heading_rx str 0"
  obtain r st2 where rc: "run_callbacks E str ?ms st = (r, st2)"
    by (cases "run_callbacks E str ?ms st")
  then have s: "snd (postProcess E str st) = st2"
    and f: "\<And>out. fst (postProcess E str st) = Inr out \<Longrightarrow> \<exists>reps. r = Inr reps"
    by (cases r; simp add: postProcess_def)+
  from run_callbacks_prefix[OF rc] obtain k where k: "k \<le> length ?ms"
    "map Some (anchorsFlat st2) = map Some (anchorsFlat st) @ map (anchor_of E str) (take k ?ms)"
    "case r of Inr reps \<Rightarrow> k = length ?ms
             | Inl e \<Rightarrow> k < length ?ms \<and> anchor_of E str (?ms ! k) = None"
    by blast
  have "\<forall>out. fst (postProcess E str st) = Inr out \<longrightarrow> k = length ?ms"
    using f k(3) by fastforce
  with k(1,2) show "\<exists>k \<le> length ?ms.
         map Some (anchorsFlat (snd (postProcess E str st))) =
           map Some (anchorsFlat st) @ map (anchor_of E str) (take k ?ms)
         \<and> (\<forall>out. fst (postProcess E str st) = Inr out \<longrightarrow> k = length ?ms)"
    unfolding s by blast
next
  assume "marked_parse E (renderer_code E) example_md = example_html"
  then show "map (\<lambda>a. (title a, level a)) (anchorsFlat (snd (useMarked E example_md (js ''.md'') st)))
          = [(js ''A'', js ''1''), (js ''B'', js ''2''), (js ''C'', js ''1'')]"
    by (rule example_anchors)
qed

theorem anchors_document_order_witness:
  "marked_parse sample_env (renderer_code sample_env) example_md = example_html
   \<and> map (\<lambda>a. (title a, level a))
       (anchorsFlat (snd (useMarked sample_env example_md (js ''.md'')
          \<lparr>anchorsFlat = [\<lparr>title = js ''old'', href = js ''#old'', level = js ''3''\<rparr>], parse_log = []\<rparr>)))
      = [(js ''A'', js ''1''), (js ''B'', js ''2''), (js ''C'', js ''1'')]
   \<and> sorted_wrt (<) (map fst (match_all_from heading_rx example_html 0))"
proof -
  have p: "marked_parse sample_env (renderer_code sample_env) example_md = example_html"
    by (simp add: sample_env_def)
  note T = anchors_document_order[of example_html sample_env
      "\<lparr>anchorsFlat = [\<lparr>title = js ''old'', href = js ''#old'', level = js ''3''\<rparr>], parse_log = []\<rparr>"]
  from T[THEN conjunct2, THEN conjunct2] p
  have "map (\<lambda>a. (title a, level a))
       (anchorsFlat (snd (useMarked sample_env example_md (js ''.md'')
          \<lparr>anchorsFlat = [\<lparr>title = js ''old'', href = js ''#old'', level = js ''3''\<rparr>], parse_log = []\<rparr>)))
      = [(js ''A'', js ''1''), (js ''B'', js ''2''), (js ''C'', js ''1'')]"
    by (rule mp)
  with p T[THEN conjunct1] show ?thesis by (intro conjI)
qed

section \<open>The rebuilt opening tag\<close>

lemma heading_rx_example:
  \<open>map (\<lambda>r. (fst r, pos (snd r), caps (snd r) 1, caps (snd r) 2, caps (snd r) 3))
     (match_all_from heading_rx (js ''<h1 id="a">A</h1>'') 0)
   = [(0, 17, Some (js ''1''), Some (js ''a''), Some (js ''A''))]\<close>
  by (simp add: heading_rx_def rx_eval)

text \<open>
  C8 fails on the code.  The pattern that removes the old \<open>id\<close> attribute asks for at
  least two characters between the quotes, so a one-character id (what the parser makes
  of the heading \<open># A\<close>) stays in the attribute string and the rebuilt tag carries
  \<open>id\<close> twice.  The pattern that extracts the attribute string has no \<open>i\<close> flag, so a
  heading matched as \<open><H1 ...>\<close> throws.
\<close>

theorem attrsNoId_short_id_kept:
  \<open>attrsNoId (js ''<h1 id="a">A</h1>'') = Inr (js ''id="a"'')
   \<and> heading_html (js ''1'') (js ''id="a"'') (js ''a'') (js ''A'') =
       js ''<h1 id="a" id="a" class="ant-typography">''
       @ nl @ sp 20 @ js ''<a id="user-content-a" name="a" class="anchor">''
       @ nl @ sp 22 @ js ''<span data-type="anchor" data-hash="#a" class="iconfont icon-pin"></span>''
       @ nl @ sp 20 @ js ''</a>''
       @ nl @ sp 20 @ js ''<span>A</span>''
       @ nl @ sp 18 @ js ''</h1>''
   \<and> fst (postProcess sample_env (js ''<h1 id="a">A</h1>'') \<lparr>anchorsFlat = [], parse_log = []\<rparr>)
       = Inr (heading_html (js ''1'') (js ''id="a"'') (js ''a'') (js ''A''))
   \<and> attrsNoId (js ''<h1 id="ab">A</h1>'') = Inr []
   \<and> attrsNoId (js ''<H1 id="ab">A</H1>'') = Inl TypeError\<close>
proof -
  have a1: \<open>attrsNoId (js ''<h1 id="a">A</h1>'') = Inr (js ''id="a"'')\<close>
    by (simp add: attrsNoId_def open_tag_rx_def id_attr_rx_def rx_eval)
  have a2: \<open>attrsNoId (js ''<h1 id="ab">A</h1>'') = Inr []\<close>
    by (simp add: attrsNoId_def open_tag_rx_def id_attr_rx_def rx_eval)
  have a3: \<open>attrsNoId (js ''<H1 id="ab">A</H1>'') = Inl TypeError\<close>
    by (simp add: attrsNoId_def open_tag_rx_def id_attr_rx_def rx_eval)
  have h: \<open>heading_html (js ''1'') (js ''id="a"'') (js ''a'') (js ''A'') =
       js ''<h1 id="a" id="a" class="ant-typography">''
       @ nl @ sp 20 @ js ''<a id="user-content-a" name="a" class="anchor">''
       @ nl @ sp 22 @ js ''<span data-type="anchor" data-hash="#a" class="iconfont icon-pin"></span>''
       @ nl @ sp 20 @ js ''</a>''
       @ nl @ sp 20 @ js ''<span>A</span>''
       @ nl @ sp 18 @ js ''</h1>''\<close>
    by (simp add: heading_html_def js_def)
  have t: \<open>textNoTag (js ''A'') = Inr (js ''A'')\<close>
    by (simp add: textNoTag_def starts_with_tag_rx_def element3_rx_def rx_eval)
  have i: \<open>idNoEmoji sample_env (Some (js ''a'')) (js ''A'') = js ''a''\<close>
    by (simp add: idNoEmoji_def sample_env_def trim_id_rx_def rx_eval)
  obtain y where m: \<open>match_all_from heading_rx (js ''<h1 id="a">A</h1>'') 0 = [(0, y)]\<close>
    and y: "pos y = 17" "caps y 1 = Some (js ''1'')" "caps y 2 = Some (js ''a'')" "caps y 3 = Some (js ''A'')"
    using heading_rx_example by (auto simp: map_eq_Cons_conv)
  have raw: \<open>matched (js ''<h1 id="a">A</h1>'') (0, y) = js ''<h1 id="a">A</h1>''\<close>
    using y by (simp add: matched_def js_def)
  have cb: \<open>callback_of sample_env (js ''<h1 id="a">A</h1>'') (0, y)
      = Inr (\<lparr>title = js ''A'', href = js ''#a'', level = js ''1''\<rparr>,
             heading_html (js ''1'') (js ''id="a"'') (js ''a'') (js ''A''))\<close>
  proof -
    have c: "cap_str y 1 = js ''1''" "cap_str y 3 = js ''A''"
      using y by (simp_all add: cap_str_def)
    show ?thesis
      unfolding callback_of_def raw heading_callback_def
      by (simp add: c y(3) t i a1 Let_def del: One_nat_def) (simp add: js_def)
  qed
  have p: \<open>fst (postProcess sample_env (js ''<h1 id="a">A</h1>'') \<lparr>anchorsFlat = [], parse_log = []\<rparr>)
       = Inr (heading_html (js ''1'') (js ''id="a"'') (js ''a'') (js ''A''))\<close>
    unfolding postProcess_def m by (simp add: cb y(1)) (simp add: js_def)
  from a1 h p a2 a3 show ?thesis by (intro conjI)
qed

section \<open>The class list of a code block\<close>

lemma blank_rx_at:
  "blank_rx s (start_at j) Some =
     (if j = 0 then star (cls is_space) s (start_at 0) (\<lambda>y. eol s y Some) else None)"
  by (simp add: blank_rx_def sq_def bol_def start_at_def)

lemma blank_test: "regex_test blank_rx s \<longleftrightarrow> list_all is_space s"
proof -
  have "exec_from blank_rx s 0 = None \<longleftrightarrow>
        star (cls is_space) s (start_at 0) (\<lambda>y. eol s y Some) = None"
    by (auto simp: exec_from_None_iff blank_rx_at)
  also have "\<dots> \<longleftrightarrow> (\<forall>k \<le> run is_space s 0. k \<noteq> length s)"
  proof -
    have "\<And>k. eol s ((start_at 0)\<lparr>pos := pos (start_at 0) + k\<rparr>) Some = None \<longleftrightarrow> k \<noteq> length s"
      by (simp add: start_at_def eol_def)
    moreover have "pos (start_at 0) = 0" by (simp add: start_at_def)
    ultimately show ?thesis by (simp only: star_cls_None_iff)
  qed
  also have "\<dots> \<longleftrightarrow> run is_space s 0 \<noteq> length s"
  proof
    assume "\<forall>k \<le> run is_space s 0. k \<noteq> length s"
    then show "run is_space s 0 \<noteq> length s" by blast
  next
    assume "run is_space s 0 \<noteq> length s"
    moreover have "run is_space s 0 \<le> length s" using run_le[of is_space s 0] by simp
    ultimately have "run is_space s 0 < length s" by simp
    then show "\<forall>k \<le> run is_space s 0. k \<noteq> length s" by auto
  qed
  finally show ?thesis by (simp add: regex_test_def run_full_iff)
qed

lemma langsPrefix_eq: "langsPrefix infostring = code_class_list infostring"
proof (cases "length (split_on 44 infostring) = 1")
  case True
  then obtain t where t: "split_on 44 infostring = [t]"
    by (cases "split_on 44 infostring") auto
  show ?thesis
    by (simp add: langsPrefix_def code_class_list_def t blank_test)
next
  case False
  then show ?thesis
    by (simp add: langsPrefix_def code_class_list_def Let_def foldl_snoc_map)
qed

text \<open>
  C9 as stated fails: only the non-empty tokens would carry the prefix into the class
  list, but an empty token gives a bare \<open>language-\<close> class.
\<close>

theorem langsPrefix_empty_token_counterexample:
  "langsPrefix (js ''a,'') = js ''language-a language-''
   \<and> spec_class_list (js ''a,'') = js ''language-a''
   \<and> langsPrefix (js ''a,'') \<noteq> spec_class_list (js ''a,'')"
  by (simp add: langsPrefix_eq code_class_list_def spec_class_list_def js_def)

text \<open>
  C9, amended.  The infostring is split on commas.  If there is exactly one token and it
  is empty or white space only, the class list is \<open>language-none\<close>; otherwise every token,
  the empty ones included, is prefixed with \<open>language-\<close> and the results are joined by
  single spaces.  The class list is the class of the \<open>code\<close> element and, after
  \<open>line-numbers\<close>, of the \<open>pre\<close> element.
\<close>

theorem renderer_code_classes:
  \<open>langsPrefix infostring = code_class_list infostring
   \<and> renderer_code E code infostring =
     nl @ sp 6 @ js ''<div class="code_wrap">''
     @ nl @ sp 8 @ js ''<button data-type="copy">copy</button>''
     @ nl @ sp 8 @ js ''<pre class="line-numbers '' @ code_class_list infostring
       @ js ''"><code class="'' @ code_class_list infostring @ js ''">''
     @ nl @ sp 10 @ highlighted E code infostring @ lineNumbersWrapper code
     @ nl @ sp 8 @ js ''</code></pre>''
     @ nl @ sp 6 @ js ''</div>''\<close>
  by (simp add: renderer_code_def langsPrefix_eq)

theorem renderer_code_classes_witness:
  \<open>langsPrefix (js ''ts,,js'') = js ''language-ts language- language-js''
   \<and> langsPrefix (js '' '') = js ''language-none''
   \<and> renderer_code sample_env (js ''x'') (js ''ts,,js'') =
     nl @ sp 6 @ js ''<div class="code_wrap">''
     @ nl @ sp 8 @ js ''<button data-type="copy">copy</button>''
     @ nl @ sp 8 @ js ''<pre class="line-numbers language-ts language- language-js">''
     @ js ''<code class="language-ts language- language-js">''
     @ nl @ sp 10 @ js ''x''
     @ js ''<span aria-hidden="true" class="line-numbers-rows"><span></span></span>''
     @ nl @ sp 8 @ js ''</code></pre>''
     @ nl @ sp 6 @ js ''</div>''\<close>
  using renderer_code_classes[of "js ''ts,,js''" sample_env "js ''x''"]
    renderer_code_classes[of "js '' ''" sample_env "js ''x''"]
  by (simp add: code_class_list_def highlighted_def sample_env_def lineNumbersWrapper_def
      linesNum_def newline_rx_def rx_eval)

section \<open>What the post-processor leaves untouched\<close>

text \<open>
  The input is always the text between the matches of the heading pattern (the gaps)
  interleaved with the matched headings.  When the callback returns on every match, the
  output is the same gaps interleaved with the strings the callback returned, and one
  anchor is pushed per match: what the pattern does not match passes through unchanged and
  contributes no anchor.  When the callback throws on some match, the post-processor throws
  and there is no output.
\<close>

lemma run_callbacks_all:
  "list_all (\<lambda>r. \<not> isl (callback_of E str r)) ms \<Longrightarrow>
   run_callbacks E str ms st =
     (Inr (map (\<lambda>r. (r, snd (projr (callback_of E str r)))) ms),
      st\<lparr>anchorsFlat := anchorsFlat st @ map (\<lambda>r. fst (projr (callback_of E str r))) ms\<rparr>)"
proof (induction ms arbitrary: st)
  case Nil
  then show ?case by simp
next
  case (Cons m ms)
  from Cons.prems obtain a rep where c: "callback_of E str m = Inr (a, rep)"
    by (cases "callback_of E str m") auto
  have "list_all (\<lambda>r. \<not> isl (callback_of E str r)) ms" using Cons.prems by simp
  from Cons.IH[OF this, of "st\<lparr>anchorsFlat := anchorsFlat st @ [a]\<rparr>"]
  show ?case by (simp add: c)
qed

lemma run_callbacks_throw:
  "\<not> list_all (\<lambda>r. \<not> isl (callback_of E str r)) ms \<Longrightarrow>
   fst (run_callbacks E str ms st) = Inl TypeError"
proof (induction ms arbitrary: st)
  case Nil
  then show ?case by simp
next
  case (Cons m ms)
  show ?case
  proof (cases "callback_of E str m")
    case (Inl e)
    then show ?thesis by (cases e) simp
  next
    case (Inr ar)
    obtain a rep where ar: "ar = (a, rep)" by (cases ar)
    have "\<not> list_all (\<lambda>r. \<not> isl (callback_of E str r)) ms" using Cons.prems Inr by simp
    from Cons.IH[OF this, of "st\<lparr>anchorsFlat := anchorsFlat st @ [a]\<rparr>"]
    show ?thesis using Inr ar
      by (cases "run_callbacks E str ms (st\<lparr>anchorsFlat := anchorsFlat st @ [a]\<rparr>)")
         (auto split: sum.splits)
  qed
qed

lemma heading_matches_frame:
  "str = weave (gaps str 0 (match_all_from heading_rx str 0))
           (map (matched str) (match_all_from heading_rx str 0))"
proof -
  let ?ms = "match_all_from heading_rx str 0"
  have "chain str 0 (map fst (map (\<lambda>r. (r, [])) ?ms))"
    using match_all_chain[OF forward_heading_rx, of str 0] by (simp add: comp_def)
  from splice_weave[OF this] show ?thesis by (simp add: comp_def)
qed

lemma postProcess_frame:
  "list_all (\<lambda>r. \<not> isl (callback_of E str r)) (match_all_from heading_rx str 0) \<Longrightarrow>
   postProcess E str st =
     (Inr (weave (gaps str 0 (match_all_from heading_rx str 0))
             (map (\<lambda>r. snd (projr (callback_of E str r))) (match_all_from heading_rx str 0))),
      st\<lparr>anchorsFlat := anchorsFlat st
           @ map (\<lambda>r. fst (projr (callback_of E str r))) (match_all_from heading_rx str 0)\<rparr>)"
proof -
  let ?ms = "match_all_from heading_rx str 0"
  let ?rs = "map (\<lambda>r. (r, snd (projr (callback_of E str r)))) ?ms"
  assume a: "list_all (\<lambda>r. \<not> isl (callback_of E str r)) ?ms"
  have "chain str 0 (map fst ?rs)"
    using match_all_chain[OF forward_heading_rx, of str 0] by (simp add: comp_def)
  from splice_weave[OF this]
  have "splice str 0 ?rs = weave (gaps str 0 ?ms) (map (\<lambda>r. snd (projr (callback_of E str r))) ?ms)"
    by (simp add: comp_def)
  then show ?thesis by (simp add: postProcess_def run_callbacks_all[OF a])
qed

lemma postProcess_throw:
  "\<not> list_all (\<lambda>r. \<not> isl (callback_of E str r)) (match_all_from heading_rx str 0) \<Longrightarrow>
   fst (postProcess E str st) = Inl TypeError"
  using run_callbacks_throw[of E str "match_all_from heading_rx str 0" st]
  by (cases "run_callbacks E str (match_all_from heading_rx str 0) st")
     (auto simp: postProcess_def split: sum.splits)

lemma postProcess_frame_example:
  \<open>match_all_from heading_rx (js ''<h1>Title</h1>'') 0 = []
   \<and> postProcess sample_env (js ''<h1>Title</h1>'') \<lparr>anchorsFlat = [], parse_log = []\<rparr>
       = (Inr (js ''<h1>Title</h1>''), \<lparr>anchorsFlat = [], parse_log = []\<rparr>)
   \<and> postProcess sample_env (js ''a<h2 id="ab">T</h2>b<h3>U</h3>'') \<lparr>anchorsFlat = [], parse_log = []\<rparr>
       = (Inr (js ''a'' @ heading_html (js ''2'') [] (js ''ab'') (js ''T'') @ js ''b<h3>U</h3>''),
          \<lparr>anchorsFlat = [\<lparr>title = js ''T'', href = js ''#ab'', level = js ''2''\<rparr>], parse_log = []\<rparr>)\<close>
proof -
  let ?s1 = \<open>js ''<h1>Title</h1>''\<close>
  let ?s2 = \<open>js ''a<h2 id="ab">T</h2>b<h3>U</h3>''\<close>
  let ?st = "\<lparr>anchorsFlat = [], parse_log = []\<rparr>"
  let ?out = \<open>js ''a'' @ heading_html (js ''2'') [] (js ''ab'') (js ''T'') @ js ''b<h3>U</h3>''\<close>
  let ?st2 = "\<lparr>anchorsFlat = [\<lparr>title = js ''T'', href = js ''#ab'', level = js ''2''\<rparr>], parse_log = []\<rparr>"
  have m1: "match_all_from heading_rx ?s1 0 = []"
    by (simp add: heading_rx_def rx_eval)
  have \<open>map (\<lambda>r. (fst r, pos (snd r), caps (snd r) 1, caps (snd r) 2, caps (snd r) 3))
     (match_all_from heading_rx ?s2 0) = [(1, 19, Some (js ''2''), Some (js ''ab''), Some (js ''T''))]\<close>
    by (simp add: heading_rx_def rx_eval)
  then obtain r where m2: "match_all_from heading_rx ?s2 0 = [r]"
    and r: "fst r = 1" "pos (snd r) = 19" "caps (snd r) 1 = Some (js ''2'')"
      "caps (snd r) 2 = Some (js ''ab'')" "caps (snd r) 3 = Some (js ''T'')"
    by (auto simp: map_eq_Cons_conv)
  have t: "textNoTag (js ''T'') = Inr (js ''T'')"
    by (simp add: textNoTag_def starts_with_tag_rx_def element3_rx_def rx_eval)
  have a: \<open>attrsNoId (js ''<h2 id="ab">T</h2>'') = Inr []\<close>
    by (simp add: attrsNoId_def open_tag_rx_def id_attr_rx_def rx_eval)
  have i: "idNoEmoji sample_env (Some (js ''ab'')) (js ''T'') = js ''ab''"
    by (simp add: idNoEmoji_def sample_env_def trim_id_rx_def rx_eval)
  have raw: \<open>take (19 - 1) (drop 1 ?s2) = js ''<h2 id="ab">T</h2>''\<close>
    by (simp add: js_def)
  have cb: "callback_of sample_env ?s2 r
      = Inr (\<lparr>title = js ''T'', href = js ''#ab'', level = js ''2''\<rparr>,
             heading_html (js ''2'') [] (js ''ab'') (js ''T''))"
    using callback_of_eval[OF r t, of ?s2 "[]" sample_env] raw a
    by (simp add: i) (simp add: js_def)
  have sp: "take 1 ?s2 @ heading_html (js ''2'') [] (js ''ab'') (js ''T'') @ drop 19 ?s2 = ?out"
    by (simp add: js_def)
  have g: "gaps ?s2 0 [r] = [take 1 ?s2, drop 19 ?s2]" by (simp add: r)
  have p1: "postProcess sample_env ?s1 ?st = (Inr ?s1, ?st)"
    using m1 by (rule postProcess_no_match)
  have "list_all (\<lambda>r. \<not> isl (callback_of sample_env ?s2 r)) (match_all_from heading_rx ?s2 0)"
    by (simp add: m2 cb)
  from postProcess_frame[OF this, of ?st]
  have p2: "postProcess sample_env ?s2 ?st = (Inr ?out, ?st2)"
    unfolding m2 g using sp by (simp add: cb)
  from m1 p1 p2 show ?thesis by (intro conjI)
qed

text \<open>
  C10 fails on the code as it is.  The callback indexes the result of two \<open>match\<close> calls
  without testing it for \<open>null\<close>.  The heading pattern carries the \<open>i\<close> flag and matches
  \<^verbatim>\<open><H1 id="ab">A</H1>\<close>, but the pattern that reads the attributes of the matched tag has
  no flag and finds nothing there; and a heading whose inner HTML begins with a tag but
  holds no complete element, as \<^verbatim>\<open><br>x\<close>, has no element to take the clean text from.  In
  both cases the callback throws a \<open>TypeError\<close>, the post-processor returns nothing, and
  neither the text outside the matched heading (\<open>x\<close> and \<open>y\<close>) nor the heading that the
  pattern does not match (\<^verbatim>\<open><h1>Title</h1>\<close>) passes through.
\<close>

theorem postProcess_throws:
  \<open>map (\<lambda>r. (fst r, pos (snd r))) (match_all_from heading_rx (js ''x<H1 id="ab">A</H1>y'') 0) = [(1, 19)]
   \<and> postProcess E (js ''x<H1 id="ab">A</H1>y'') st = (Inl TypeError, st)
   \<and> map (\<lambda>r. (fst r, pos (snd r)))
         (match_all_from heading_rx (js ''<h1>Title</h1><h1 id="x"><br>x</h1>'') 0) = [(14, 35)]
   \<and> postProcess E (js ''<h1>Title</h1><h1 id="x"><br>x</h1>'') st = (Inl TypeError, st)\<close>
proof -
  let ?s1 = \<open>js ''x<H1 id="ab">A</H1>y''\<close>
  let ?s2 = \<open>js ''<h1>Title</h1><h1 id="x"><br>x</h1>''\<close>
  have \<open>map (\<lambda>r. (fst r, pos (snd r), caps (snd r) 1, caps (snd r) 2, caps (snd r) 3))
     (match_all_from heading_rx ?s1 0) = [(1, 19, Some (js ''1''), Some (js ''ab''), Some (js ''A''))]\<close>
    by (simp add: heading_rx_def rx_eval)
  then obtain r1 where m1: "match_all_from heading_rx ?s1 0 = [r1]"
    and r1: "fst r1 = 1" "pos (snd r1) = 19" "caps (snd r1) 3 = Some (js ''A'')"
    by (auto simp: map_eq_Cons_conv)
  have \<open>map (\<lambda>r. (fst r, pos (snd r), caps (snd r) 1, caps (snd r) 2, caps (snd r) 3))
     (match_all_from heading_rx ?s2 0) = [(14, 35, Some (js ''1''), Some (js ''x''), Some (js ''<br>x''))]\<close>
    by (simp add: heading_rx_def rx_eval)
  then obtain r2 where m2: "match_all_from heading_rx ?s2 0 = [r2]"
    and r2: "fst r2 = 14" "pos (snd r2) = 35" "caps (snd r2) 3 = Some (js ''<br>x'')"
    by (auto simp: map_eq_Cons_conv)
  have t1: "textNoTag (js ''A'') = Inr (js ''A'')"
    by (simp add: textNoTag_def starts_with_tag_rx_def element3_rx_def rx_eval)
  have raw1: \<open>matched ?s1 r1 = js ''<H1 id="ab">A</H1>''\<close>
    by (simp add: matched_def r1 js_def)
  have a1: \<open>attrsNoId (js ''<H1 id="ab">A</H1>'') = Inl TypeError\<close>
    by (simp add: attrsNoId_def open_tag_rx_def rx_eval)
  have c1: "callback_of E ?s1 r1 = Inl TypeError"
    by (simp add: callback_of_def heading_callback_def raw1 a1 cap_str_def r1 t1 Let_def)
  have t2: "textNoTag (js ''<br>x'') = Inl TypeError"
    by (simp add: textNoTag_def starts_with_tag_rx_def element_rx_def rx_eval)
  have c2: "callback_of E ?s2 r2 = Inl TypeError"
    by (simp add: callback_of_def heading_callback_def cap_str_def r2 t2)
  have p1: "postProcess E ?s1 st = (Inl TypeError, st)"
    by (simp add: postProcess_def m1 c1)
  have p2: "postProcess E ?s2 st = (Inl TypeError, st)"
    by (simp add: postProcess_def m2 c2)
  have q1: "map (\<lambda>r. (fst r, pos (snd r))) (match_all_from heading_rx ?s1 0) = [(1, 19)]"
    by (simp add: m1 r1)
  have q2: "map (\<lambda>r. (fst r, pos (snd r))) (match_all_from heading_rx ?s2 0) = [(14, 35)]"
    by (simp add: m2 r2)
  from q1 p1 q2 p2 show ?thesis by (intro conjI)
qed

end
